theory Spec2Isabelle
  imports Main
begin

section \<open>The C runtime as far as qwertysh uses it\<close>

text \<open>
  The interpreter of \<^verbatim>\<open>main.c\<close> talks to its environment through the standard
  streams, the working directory, the allocator and the process primitives. The part of
  that environment the program can change or observe is the record \<open>world\<close>; the answers
  of the operating system that the program cannot predict are the oracles of the record
  \<open>os\<close>, indexed by the number of requests made so far (\<open>clock\<close>), so that the same request
  may be answered differently at different times.
\<close>

datatype wstatus = Exited nat | Signaled nat | Stopped nat

datatype exec_result = ExecFailed string | ExecRuns

datatype fork_result = ForkFailed string | Forked exec_result "wstatus list"

text \<open>
  A heap block is a list of cells, one per element; \<open>None\<close> is a cell that was never
  written. A pointer cell of the token vector holds \<open>None\<close> for \<^verbatim>\<open>NULL\<close> and \<open>Some s\<close>
  for a pointer to the string \<open>s\<close> (a C string is a \<open>char list\<close> without the NUL that ends it).
\<close>

type_synonym 'a array = "'a option list"

record world =
  stdin :: "char list"
  stdout :: "char list"
  stderr :: "char list"
  cwd :: string
  errno_msg :: string
  clock :: nat

record os =
  os_alloc :: "nat \<Rightarrow> bool"
  os_chdir :: "nat \<Rightarrow> string \<Rightarrow> string \<Rightarrow> string + string"
  os_fork :: "nat \<Rightarrow> string option array \<Rightarrow> fork_result"

text \<open>
  How a call can fail to return a value to its caller: the process ends through
  \<^verbatim>\<open>exit(EXIT_FAILURE)\<close>, the behaviour is undefined by the C standard, or the call
  blocks forever.
\<close>

datatype fault = Exit_Failure | Undefined_Behaviour | Blocked

type_synonym 'a result = "(fault \<times> world) + ('a \<times> world)"

definition INT_MAX :: int where
  "INT_MAX = 2147483647"

definition EOF :: int where
  "EOF = - 1"

definition EXIT_FAILURE :: nat where
  "EXIT_FAILURE = 1"

definition NUL :: char where
  "NUL = CHR 0x00"

definition NEWLINE :: char where
  "NEWLINE = CHR 0x0A"

text \<open>Signed \<^verbatim>\<open>int\<close> addition; overflow is undefined behaviour (\<open>None\<close>).\<close>

definition int_add :: "int \<Rightarrow> int \<Rightarrow> int option" where
  "int_add a b = (if a + b > INT_MAX \<or> a + b < - INT_MAX - 1 then None else Some (a + b))"

definition tick :: "world \<Rightarrow> world" where
  "tick w = w\<lparr>clock := Suc (clock w)\<rparr>"

text \<open>Reading and writing the cell \<open>i\<close> of a block; \<open>None\<close> is an access outside the
  block or a read of a cell never written.\<close>

definition aread :: "'a array \<Rightarrow> int \<Rightarrow> 'a option" where
  "aread a i = (if 0 \<le> i \<and> nat i < length a then a ! nat i else None)"

definition awrite :: "'a array \<Rightarrow> int \<Rightarrow> 'a \<Rightarrow> 'a array option" where
  "awrite a i v = (if 0 \<le> i \<and> nat i < length a then Some (a[nat i := Some v]) else None)"

text \<open>\<^verbatim>\<open>malloc\<close> and \<^verbatim>\<open>realloc\<close>, counted in elements; \<open>None\<close> is the null pointer.\<close>

definition malloc :: "os \<Rightarrow> nat \<Rightarrow> world \<Rightarrow> 'a array option \<times> world" where
  "malloc os n w =
     (if os_alloc os (clock w) then Some (replicate n None) else None, tick w)"

definition realloc :: "os \<Rightarrow> 'a array \<Rightarrow> nat \<Rightarrow> world \<Rightarrow> 'a array option \<times> world" where
  "realloc os a n w =
     (if os_alloc os (clock w) then Some (take n a @ replicate (n - length a) None) else None,
      tick w)"

definition printf :: "string \<Rightarrow> world \<Rightarrow> world" where
  "printf s w = w\<lparr>stdout := stdout w @ s\<rparr>"

definition fprintf_stderr :: "string \<Rightarrow> world \<Rightarrow> world" where
  "fprintf_stderr s w = w\<lparr>stderr := stderr w @ s\<rparr>"

definition perror :: "string \<Rightarrow> world \<Rightarrow> world" where
  "perror s w = w\<lparr>stderr := stderr w @ s @ '': '' @ errno_msg w @ [NEWLINE]\<rparr>"

definition getchar :: "world \<Rightarrow> int \<times> world" where
  "getchar w = (case stdin w of [] \<Rightarrow> (EOF, w) | c # cs \<Rightarrow> (of_char c, w\<lparr>stdin := cs\<rparr>))"

text \<open>\<^verbatim>\<open>chdir\<close>: on failure it returns \<open>-1\<close>, sets \<^verbatim>\<open>errno\<close> and leaves the working
  directory as it was (POSIX).\<close>

definition chdir :: "os \<Rightarrow> string \<Rightarrow> world \<Rightarrow> int \<times> world" where
  "chdir os path w =
     (case os_chdir os (clock w) (cwd w) path of
        Inl err \<Rightarrow> (- 1, (tick w)\<lparr>errno_msg := err\<rparr>)
      | Inr dir \<Rightarrow> (0, (tick w)\<lparr>cwd := dir\<rparr>))"

text \<open>\<^verbatim>\<open>strcmp\<close>: zero for equal strings, otherwise the sign of the difference of the
  first two bytes that differ, compared as \<^verbatim>\<open>unsigned char\<close>.\<close>

fun strcmp :: "string \<Rightarrow> string \<Rightarrow> int" where
  "strcmp [] [] = 0"
| "strcmp [] (y # ys) = - 1"
| "strcmp (x # xs) [] = 1"
| "strcmp (x # xs) (y # ys) =
     (if x = y then strcmp xs ys
      else if (of_char x :: nat) < of_char y then - 1 else 1)"

text \<open>
  \<^verbatim>\<open>strtok\<close>, with the pointer it saves between calls made explicit: the argument is the
  text at the saved pointer (the line itself in the first call), the result is the token,
  if any, and the text at the new saved pointer. Leading delimiters are skipped; the token
  runs up to the next delimiter, which is overwritten by NUL and stepped over.
\<close>

definition strtok :: "string \<Rightarrow> string \<Rightarrow> string option \<times> string" where
  "strtok s delim =
     (let s1 = dropWhile (\<lambda>c. c \<in> set delim) s in
      if s1 = [] then (None, [])
      else (Some (takeWhile (\<lambda>c. c \<notin> set delim) s1),
            drop 1 (dropWhile (\<lambda>c. c \<notin> set delim) s1)))"

text \<open>The C string held in a character block: the cells before the first NUL; \<open>None\<close>
  when a cell that was never written, or the end of the block, comes first.\<close>

fun c_str :: "char array \<Rightarrow> string option" where
  "c_str [] = None"
| "c_str (None # cells) = None"
| "c_str (Some c # cells) =
     (if c = NUL then Some [] else map_option ((#) c) (c_str cells))"

text \<open>\<^verbatim>\<open>WIFEXITED\<close> and \<^verbatim>\<open>WIFSIGNALED\<close>.\<close>

fun WIFEXITED :: "wstatus \<Rightarrow> bool" where
  "WIFEXITED (Exited n) = True"
| "WIFEXITED _ = False"

fun WIFSIGNALED :: "wstatus \<Rightarrow> bool" where
  "WIFSIGNALED (Signaled n) = True"
| "WIFSIGNALED _ = False"

section \<open>The built-in commands\<close>

definition builtin_str :: "string list" where
  "builtin_str = [''cd'', ''help'', ''exit'', ''cls'']"

definition qwertysh_num_builtins :: int where
  "qwertysh_num_builtins = int (length builtin_str)"

text \<open>
  A built-in returns \<open>Some v\<close> when it ends in \<^verbatim>\<open>return v\<close> and \<open>None\<close> when control
  reaches the closing brace of its body without a \<^verbatim>\<open>return\<close>.
\<close>

type_synonym builtin = "os \<Rightarrow> string option array \<Rightarrow> world \<Rightarrow> int option result"

definition cd_usage :: string where
  "cd_usage = ''qwertysh: expected argument to '' @ [CHR 0x22] @ ''cd'' @ [CHR 0x22, NEWLINE]"

definition qwertysh_cd :: builtin where
  "qwertysh_cd os args w =
     (case aread args 1 of
        None \<Rightarrow> Inl (Undefined_Behaviour, w)
      | Some None \<Rightarrow>
          Inr (Some 1, fprintf_stderr cd_usage w)
      | Some (Some dir) \<Rightarrow>
          (case chdir os dir w of
             (r, w1) \<Rightarrow> if r \<noteq> 0 then Inr (Some 1, perror ''qwertysh'' w1)
                        else Inr (Some 1, w1)))"

fun help_loop :: "string list \<Rightarrow> world \<Rightarrow> world" where
  "help_loop [] w = w"
| "help_loop (name # names) w = help_loop names (printf (''  '' @ name @ [NEWLINE]) w)"

definition qwertysh_help :: builtin where
  "qwertysh_help os args w =
     (let w1 = printf (''Corey Kennedy'' @ [CHR 0x27] @ ''s qwertysh'' @ [NEWLINE]) w;
          w2 = printf (''Type program names and arguments, and hit enter.'' @ [NEWLINE]) w1;
          w3 = printf (''The following are built in:'' @ [NEWLINE]) w2;
          w4 = help_loop builtin_str w3;
          w5 = printf (''Use the man command for information on other programs.'' @ [NEWLINE]) w4
      in Inr (Some 1, w5))"

definition qwertysh_exit :: builtin where
  "qwertysh_exit os args w = Inr (Some 0, w)"

definition CLEAR_SCREEN :: string where
  "CLEAR_SCREEN = [CHR 0x1B, CHR ''['', CHR ''2'', CHR ''J'']"

definition qwertysh_cls :: builtin where
  "qwertysh_cls os args w = Inr (None, printf CLEAR_SCREEN w)"

definition builtin_func :: "builtin list" where
  "builtin_func = [qwertysh_cd, qwertysh_help, qwertysh_exit, qwertysh_cls]"

section \<open>Launching a program\<close>

text \<open>
  \<^verbatim>\<open>fork\<close> answers from the oracle. The branch \<^verbatim>\<open>pid == 0\<close> runs in the child, which
  shares the error stream with the interpreter: when \<^verbatim>\<open>execvp\<close> fails there, the child
  prints the diagnostic and ends with \<^verbatim>\<open>exit(EXIT_FAILURE)\<close>, which is the last status the
  parent's \<^verbatim>\<open>waitpid\<close> sees. The statuses of the oracle are what the successive
  \<^verbatim>\<open>waitpid\<close> calls store before that; when they run out, \<^verbatim>\<open>waitpid\<close> blocks forever.
\<close>

definition launch_child :: "exec_result \<Rightarrow> world \<Rightarrow> world \<times> wstatus list" where
  "launch_child ex w =
     (case ex of
        ExecFailed err \<Rightarrow>
          (w\<lparr>stderr := stderr w @ ''qwertysh'' @ '': '' @ err @ [NEWLINE]\<rparr>,
           [Exited EXIT_FAILURE])
      | ExecRuns \<Rightarrow> (w, []))"

fun wait_loop :: "wstatus list \<Rightarrow> wstatus option" where
  "wait_loop [] = None"
| "wait_loop (status # later) =
     (if \<not> WIFEXITED status \<and> \<not> WIFSIGNALED status then wait_loop later
      else Some status)"

definition qwertysh_launch :: "os \<Rightarrow> string option array \<Rightarrow> world \<Rightarrow> int result" where
  "qwertysh_launch os args w =
     (case os_fork os (clock w) args of
        ForkFailed err \<Rightarrow> Inr (1, perror ''qwertysh'' ((tick w)\<lparr>errno_msg := err\<rparr>))
      | Forked ex statuses \<Rightarrow>
          (case launch_child ex (tick w) of
             (w1, last_status) \<Rightarrow>
               (case wait_loop (statuses @ last_status) of
                  None \<Rightarrow> Inl (Blocked, w1)
                | Some status \<Rightarrow> Inr (1, w1))))"

section \<open>Dispatching\<close>

text \<open>Using the value of a call that reached the closing brace without \<^verbatim>\<open>return\<close> is
  undefined behaviour.\<close>

definition return_value :: "int option result \<Rightarrow> int result" where
  "return_value r =
     (case r of
        Inl f \<Rightarrow> Inl f
      | Inr (None, w) \<Rightarrow> Inl (Undefined_Behaviour, w)
      | Inr (Some v, w) \<Rightarrow> Inr (v, w))"


function execute_loop :: "os \<Rightarrow> int \<Rightarrow> string option array \<Rightarrow> world \<Rightarrow> int result" where
  "execute_loop os i args w =
     (if i < qwertysh_num_builtins then
        (case aread args 0 of
           Some (Some name) \<Rightarrow>
             if strcmp name (builtin_str ! nat i) = 0
             then return_value ((builtin_func ! nat i) os args w)
             else execute_loop os (i + 1) args w
         | _ \<Rightarrow> Inl (Undefined_Behaviour, w))
      else qwertysh_launch os args w)"
  by pat_completeness auto
termination
  by (relation "measure (\<lambda>(os, i, args, w). nat (qwertysh_num_builtins - i))") auto

declare execute_loop.simps [simp del]

definition qwertysh_execute :: "os \<Rightarrow> string option array \<Rightarrow> world \<Rightarrow> int result" where
  "qwertysh_execute os args w =
     (case aread args 0 of
        None \<Rightarrow> Inl (Undefined_Behaviour, w)
      | Some None \<Rightarrow> Inr (1, w)
      | Some (Some name) \<Rightarrow> execute_loop os 0 args w)"

section \<open>Reading a line\<close>

definition qwertysh_RL_BUFSIZE :: int where
  "qwertysh_RL_BUFSIZE = 1024"

definition alloc_error :: string where
  "alloc_error = ''qwertysh: allocation error'' @ [NEWLINE]"

text \<open>The tail of the loop body of \<^verbatim>\<open>qwertysh_read_line\<close>: \<^verbatim>\<open>position++\<close> and the
  growth of the buffer. It returns the new \<open>bufsize\<close>, \<open>position\<close> and buffer.\<close>

definition read_advance ::
  "os \<Rightarrow> int \<Rightarrow> int \<Rightarrow> char array \<Rightarrow> world \<Rightarrow> (int \<times> int \<times> char array) result" where
  "read_advance os bufsize position buffer w =
     (case int_add position 1 of
        None \<Rightarrow> Inl (Undefined_Behaviour, w)
      | Some position1 \<Rightarrow>
          if position1 \<ge> bufsize then
            (case int_add bufsize qwertysh_RL_BUFSIZE of
               None \<Rightarrow> Inl (Undefined_Behaviour, w)
             | Some bufsize1 \<Rightarrow>
                 (case realloc os buffer (nat bufsize1) w of
                    (None, w1) \<Rightarrow> Inl (Exit_Failure, fprintf_stderr alloc_error w1)
                  | (Some buffer1, w1) \<Rightarrow> Inr ((bufsize1, position1, buffer1), w1)))
          else Inr ((bufsize, position1, buffer), w))"

function read_loop :: "os \<Rightarrow> int \<Rightarrow> int \<Rightarrow> char array \<Rightarrow> world \<Rightarrow> char array result" where
  "read_loop os bufsize position buffer w =
     (case getchar w of
        (c, w1) \<Rightarrow>
          if c = EOF \<or> c = of_char NEWLINE then
            (case awrite buffer position NUL of
               None \<Rightarrow> Inl (Undefined_Behaviour, w1)
             | Some buffer1 \<Rightarrow> Inr (buffer1, w1))
          else
            (case awrite buffer position (char_of c) of
               None \<Rightarrow> Inl (Undefined_Behaviour, w1)
             | Some buffer1 \<Rightarrow>
                 (case read_advance os bufsize position buffer1 w1 of
                    Inl f \<Rightarrow> Inl f
                  | Inr ((bufsize2, position2, buffer2), w2) \<Rightarrow>
                      read_loop os bufsize2 position2 buffer2 w2)))"
  by pat_completeness auto

termination
  apply (relation "measure (\<lambda>(os, bufsize, position, buffer, w). length (stdin w))")
   apply simp
  apply (auto simp: getchar_def EOF_def read_advance_def realloc_def tick_def
      split: list.splits option.splits if_splits prod.splits)
  done

declare read_loop.simps [simp del]

definition qwertysh_read_line :: "os \<Rightarrow> world \<Rightarrow> char array result" where
  "qwertysh_read_line os w =
     (case malloc os (nat qwertysh_RL_BUFSIZE) w of
        (None, w1) \<Rightarrow> Inl (Exit_Failure, fprintf_stderr alloc_error w1)
      | (Some buffer, w1) \<Rightarrow> read_loop os qwertysh_RL_BUFSIZE 0 buffer w1)"

section \<open>Splitting a line into tokens\<close>

definition qwertysh_TOK_BUFSIZE :: int where
  "qwertysh_TOK_BUFSIZE = 64"

definition qwertysh_TOK_DELIM :: string where
  "qwertysh_TOK_DELIM = [CHR '' '', CHR 0x09, CHR 0x0D, CHR 0x0A, CHR 0x07]"

text \<open>The first half of the loop body of \<^verbatim>\<open>qwertysh_split_line\<close>: the token is stored,
  \<open>position\<close> advances and the vector grows when it is full.\<close>

definition split_store ::
  "os \<Rightarrow> string \<Rightarrow> int \<Rightarrow> int \<Rightarrow> string option array \<Rightarrow> world \<Rightarrow>
   (int \<times> int \<times> string option array) result" where
  "split_store os token bufsize position tokens w =
     (case awrite tokens position (Some token) of
        None \<Rightarrow> Inl (Undefined_Behaviour, w)
      | Some tokens1 \<Rightarrow>
          (case int_add position 1 of
             None \<Rightarrow> Inl (Undefined_Behaviour, w)
           | Some position1 \<Rightarrow>
               if position1 \<ge> bufsize then
                 (case int_add bufsize qwertysh_TOK_BUFSIZE of
                    None \<Rightarrow> Inl (Undefined_Behaviour, w)
                  | Some bufsize1 \<Rightarrow>
                      (case realloc os tokens1 (nat bufsize1) w of
                         (None, w1) \<Rightarrow> Inl (Exit_Failure, fprintf_stderr alloc_error w1)
                       | (Some tokens2, w1) \<Rightarrow> Inr ((bufsize1, position1, tokens2), w1)))
               else Inr ((bufsize, position1, tokens1), w)))"

function split_loop ::
  "os \<Rightarrow> string option \<Rightarrow> string \<Rightarrow> int \<Rightarrow> int \<Rightarrow> string option array \<Rightarrow> world \<Rightarrow>
   string option array result" where
  "split_loop os None saved bufsize position tokens w =
     (case awrite tokens position None of
        None \<Rightarrow> Inl (Undefined_Behaviour, w)
      | Some tokens1 \<Rightarrow> Inr (tokens1, w))"
| "split_loop os (Some token) saved bufsize position tokens w =
     (case split_store os token bufsize position tokens w of
        Inl f \<Rightarrow> Inl f
      | Inr ((bufsize1, position1, tokens1), w1) \<Rightarrow>
          (case strtok saved qwertysh_TOK_DELIM of
             (token1, saved1) \<Rightarrow> split_loop os token1 saved1 bufsize1 position1 tokens1 w1))"
  by pat_completeness auto

termination
proof -
  have shorter: "length s' < length s" if "(Some t, s') = strtok s delim"
    for s s' :: string and delim t
  proof -
    define s1 where "s1 = dropWhile (\<lambda>c. c \<in> set delim) s"
    from that have ne: "s1 \<noteq> []" and s': "s' = drop 1 (dropWhile (\<lambda>c. c \<notin> set delim) s1)"
      by (auto simp: strtok_def s1_def Let_def split: if_splits)
    have "length (dropWhile (\<lambda>c. c \<notin> set delim) s1) \<le> length s1"
      by (rule length_dropWhile_le)
    with ne s' have "length s' < length s1"
      by (cases s1) auto
    moreover have "length s1 \<le> length s"
      unfolding s1_def by (rule length_dropWhile_le)
    ultimately show ?thesis by simp
  qed
  show ?thesis
    apply (relation "measure (\<lambda>(os, token, saved, bufsize, position, tokens, w).
             case token of None \<Rightarrow> 0 | Some t \<Rightarrow> Suc (length saved))")
     apply simp
    apply (auto split: option.splits dest: shorter)
    done
qed

declare split_loop.simps [simp del]

text \<open>The tokens the loop of \<^verbatim>\<open>qwertysh_split_line\<close> sees, in order: the token in hand
  and those that the later calls \<^verbatim>\<open>strtok(NULL, qwertysh_TOK_DELIM)\<close> return.\<close>

function tokens_from :: "string option \<Rightarrow> string \<Rightarrow> string list" where
  "tokens_from None saved = []"
| "tokens_from (Some token) saved =
     token # (case strtok saved qwertysh_TOK_DELIM of
                (token1, saved1) \<Rightarrow> tokens_from token1 saved1)"
  by pat_completeness auto
termination
proof -
  have shorter: "length s' < length s" if "(Some t, s') = strtok s delim"
    for s s' :: string and delim t
  proof -
    define s1 where "s1 = dropWhile (\<lambda>c. c \<in> set delim) s"
    from that have ne: "s1 \<noteq> []" and s': "s' = drop 1 (dropWhile (\<lambda>c. c \<notin> set delim) s1)"
      by (auto simp: strtok_def s1_def Let_def split: if_splits)
    have "length (dropWhile (\<lambda>c. c \<notin> set delim) s1) \<le> length s1"
      by (rule length_dropWhile_le)
    with ne s' have "length s' < length s1"
      by (cases s1) auto
    moreover have "length s1 \<le> length s"
      unfolding s1_def by (rule length_dropWhile_le)
    ultimately show ?thesis by simp
  qed
  show ?thesis
    apply (relation "measure (\<lambda>(token, saved).
             case token of None \<Rightarrow> 0 | Some t \<Rightarrow> Suc (length saved))")
     apply simp
    apply (auto split: option.splits prod.splits dest: shorter shorter [OF sym])
    done
qed

definition tokens_of :: "string \<Rightarrow> string list" where
  "tokens_of line =
     (case strtok line qwertysh_TOK_DELIM of (token, saved) \<Rightarrow> tokens_from token saved)"

text \<open>What a token is: a non-empty string without a delimiter.\<close>

definition token_ok :: "string \<Rightarrow> bool" where
  "token_ok t \<longleftrightarrow> t \<noteq> [] \<and> set t \<inter> set qwertysh_TOK_DELIM = {}"

text \<open>The tokenizer in the words of the specification: the line is cut at every delimiter
  character, and the pieces that are not empty are the tokens, in the order of the line.\<close>

fun pieces :: "string \<Rightarrow> string list" where
  "pieces [] = [[]]"
| "pieces (c # cs) =
     (if c \<in> set qwertysh_TOK_DELIM then [] # pieces cs
      else (case pieces cs of [] \<Rightarrow> [[c]] | p # ps \<Rightarrow> (c # p) # ps))"

definition tokens_spec :: "string \<Rightarrow> string list" where
  "tokens_spec line = filter (\<lambda>t. t \<noteq> []) (pieces line)"

definition qwertysh_split_line :: "os \<Rightarrow> string \<Rightarrow> world \<Rightarrow> string option array result" where
  "qwertysh_split_line os line w =
     (case malloc os (nat qwertysh_TOK_BUFSIZE) w of
        (None, w1) \<Rightarrow> Inl (Exit_Failure, fprintf_stderr alloc_error w1)
      | (Some tokens, w1) \<Rightarrow>
          (case strtok line qwertysh_TOK_DELIM of
             (token, saved) \<Rightarrow> split_loop os token saved qwertysh_TOK_BUFSIZE 0 tokens w1))"

section \<open>The main loop\<close>

definition PROMPT :: string where
  "PROMPT = ''QWERTYSH> ''"

text \<open>One iteration of the \<^verbatim>\<open>do ... while (status)\<close> loop, up to the value of
  \<open>status\<close>. The two \<^verbatim>\<open>free\<close> calls have no effect on the world. The line handed to the
  tokenizer is the C string in the buffer.\<close>

definition loop_body :: "os \<Rightarrow> world \<Rightarrow> int result" where
  "loop_body os w =
     (case qwertysh_read_line os (printf PROMPT w) of
        Inl f \<Rightarrow> Inl f
      | Inr (buffer, w1) \<Rightarrow>
          (case c_str buffer of
             None \<Rightarrow> Inl (Undefined_Behaviour, w1)
           | Some line \<Rightarrow>
               (case qwertysh_split_line os line w1 of
                  Inl f \<Rightarrow> Inl f
                | Inr (args, w2) \<Rightarrow> qwertysh_execute os args w2)))"

partial_function (option) qwertysh_loop :: "os \<Rightarrow> world \<Rightarrow> unit result option" where
  "qwertysh_loop os w =
     (case loop_body os w of
        Inl f \<Rightarrow> Some (Inl f)
      | Inr (status, w1) \<Rightarrow>
          if status \<noteq> 0 then qwertysh_loop os w1 else Some (Inr ((), w1)))"

declare qwertysh_loop.simps [code]

text \<open>The characters that \<^verbatim>\<open>getchar\<close> delivers up to the next newline or the end of
  the input, and the C string they make once they are in the buffer.\<close>

definition input_line :: "world \<Rightarrow> char list" where
  "input_line w = takeWhile (\<lambda>c. c \<noteq> NEWLINE) (stdin w)"

definition input_string :: "world \<Rightarrow> string" where
  "input_string w = takeWhile (\<lambda>c. c \<noteq> NUL) (input_line w)"

section \<open>A sample environment\<close>

text \<open>An operating system in which every allocation succeeds, only \<^verbatim>\<open>/tmp\<close> can be
  entered, and the fate of a child depends on the name of the program.\<close>

definition sample_os :: os where
  "sample_os =
     \<lparr>os_alloc = (\<lambda>t. True),
      os_chdir = (\<lambda>t dir path.
         if path = ''/tmp'' then Inr ''/tmp'' else Inl ''No such file or directory''),
      os_fork = (\<lambda>t args.
         case aread args 0 of
           Some (Some name) \<Rightarrow>
             if name = ''nofork'' then ForkFailed ''Resource temporarily unavailable''
             else if name = ''nosuch'' then Forked (ExecFailed ''No such file or directory'') []
             else if name = ''sleep'' then Forked ExecRuns [Stopped 19, Signaled 9]
             else Forked ExecRuns [Exited 0]
         | _ \<Rightarrow> Forked (ExecFailed ''Bad address'') [])\<rparr>"

definition sample_world :: "char list \<Rightarrow> world" where
  "sample_world input =
     \<lparr>stdin = input, stdout = [], stderr = [], cwd = ''/home'', errno_msg = [], clock = 0\<rparr>"

definition argv :: "string list \<Rightarrow> string option array" where
  "argv words = map (\<lambda>word. Some (Some word)) words @ [Some None]"

section \<open>Facts about the runtime\<close>

lemma strcmp_eq: "strcmp a b = 0 \<longleftrightarrow> a = b"
  by (induction a b rule: strcmp.induct) auto

lemma aread_argv_0: "aread (argv (name # rest)) 0 = Some (Some name)"
  by (simp add: aread_def argv_def)

lemma aread_argv_nil: "aread (argv []) 0 = Some None"
  by (simp add: aread_def argv_def)

section \<open>The dispatcher\<close>

lemma execute_loop_unroll:
  assumes "aread args 0 = Some (Some name)"
  shows "execute_loop os 0 args w =
     (if name = ''cd'' then return_value (qwertysh_cd os args w)
      else if name = ''help'' then return_value (qwertysh_help os args w)
      else if name = ''exit'' then return_value (qwertysh_exit os args w)
      else if name = ''cls'' then return_value (qwertysh_cls os args w)
      else qwertysh_launch os args w)"
proof -
  have n: "qwertysh_num_builtins = 4"
    by (simp add: qwertysh_num_builtins_def builtin_str_def)
  have 4: "execute_loop os 4 args w = qwertysh_launch os args w"
    by (subst execute_loop.simps) (simp add: n)
  have 3: "execute_loop os 3 args w =
      (if name = ''cls'' then return_value (qwertysh_cls os args w)
       else qwertysh_launch os args w)"
    by (subst execute_loop.simps)
      (simp add: n assms strcmp_eq builtin_str_def builtin_func_def 4)
  have 2: "execute_loop os 2 args w =
      (if name = ''exit'' then return_value (qwertysh_exit os args w)
       else execute_loop os 3 args w)"
    by (subst execute_loop.simps)
      (simp add: n assms strcmp_eq builtin_str_def builtin_func_def)
  have 1: "execute_loop os 1 args w =
      (if name = ''help'' then return_value (qwertysh_help os args w)
       else execute_loop os 2 args w)"
    by (subst execute_loop.simps)
      (simp add: n assms strcmp_eq builtin_str_def builtin_func_def)
  have 0: "execute_loop os 0 args w =
      (if name = ''cd'' then return_value (qwertysh_cd os args w)
       else execute_loop os 1 args w)"
    by (subst execute_loop.simps)
      (simp add: n assms strcmp_eq builtin_str_def builtin_func_def)
  show ?thesis
    by (simp only: 0 1 2 3)
qed

lemma qwertysh_execute_unroll:
  assumes "aread args 0 = Some (Some name)"
  shows "qwertysh_execute os args w =
     (if name = ''cd'' then return_value (qwertysh_cd os args w)
      else if name = ''help'' then return_value (qwertysh_help os args w)
      else if name = ''exit'' then return_value (qwertysh_exit os args w)
      else if name = ''cls'' then return_value (qwertysh_cls os args w)
      else qwertysh_launch os args w)"
  using execute_loop_unroll [OF assms] by (simp add: qwertysh_execute_def assms)





section \<open>The built-ins and the launcher\<close>

text \<open>
  Claim C9. \<^verbatim>\<open>qwertysh_cls\<close> prints the clear-screen sequence and then reaches the end of
  its body without a \<^verbatim>\<open>return\<close>: it hands no value to the dispatcher, and the dispatcher,
  which returns that value to the main loop, has undefined behaviour.
\<close>

theorem qwertysh_cls_no_value:
  "qwertysh_cls os args w = Inr (None, w\<lparr>stdout := stdout w @ CLEAR_SCREEN\<rparr>)
   \<and> qwertysh_execute os (argv [''cls'']) w
       = Inl (Undefined_Behaviour, w\<lparr>stdout := stdout w @ CLEAR_SCREEN\<rparr>)"
  by (simp add: qwertysh_execute_unroll [OF aread_argv_0] qwertysh_cls_def printf_def
      return_value_def)


text \<open>
  Claim C6. With no directory argument \<^verbatim>\<open>qwertysh_cd\<close> writes its complaint to the error
  stream and changes nothing else; when \<^verbatim>\<open>chdir\<close> fails it reports the failure through
  \<^verbatim>\<open>perror\<close> and the working directory stays as it was. In both cases it returns 1, and so
  does the dispatcher for a command line that starts with \<open>cd\<close>.
\<close>

theorem qwertysh_cd_failure:
  assumes "aread args 1 = Some None \<or>
           (\<exists>dir err. aread args 1 = Some (Some dir) \<and>
              os_chdir os (clock w) (cwd w) dir = Inl err)"
  shows "\<exists>w'. qwertysh_cd os args w = Inr (Some 1, w')
           \<and> (aread args 0 = Some (Some ''cd'') \<longrightarrow> qwertysh_execute os args w = Inr (1, w'))
           \<and> cwd w' = cwd w
           \<and> stderr w' = stderr w @
                (if aread args 1 = Some None then cd_usage
                 else ''qwertysh: '' @ errno_msg w' @ [NEWLINE])
           \<and> stdin w' = stdin w \<and> stdout w' = stdout w"
proof -
  from assms obtain w' where cd: "qwertysh_cd os args w = Inr (Some 1, w')"
    by (auto simp: qwertysh_cd_def chdir_def)
  have "qwertysh_execute os args w = Inr (1, w')" if "aread args 0 = Some (Some ''cd'')"
    using that cd by (simp add: qwertysh_execute_unroll [of args "''cd''"] return_value_def)
  moreover from assms cd have "cwd w' = cwd w" "stdin w' = stdin w" "stdout w' = stdout w"
    "stderr w' = stderr w @
       (if aread args 1 = Some None then cd_usage else ''qwertysh: '' @ errno_msg w' @ [NEWLINE])"
    by (auto simp: qwertysh_cd_def chdir_def perror_def tick_def fprintf_stderr_def)
  ultimately show ?thesis
    using cd by blast
qed

theorem qwertysh_cd_failure_witness:
  "aread (argv [''cd'']) 1 = Some None
   \<and> aread (argv [''cd'', ''/nonexistent-path'']) 0 = Some (Some ''cd'')
   \<and> aread (argv [''cd'', ''/nonexistent-path'']) 1 = Some (Some ''/nonexistent-path'')
   \<and> os_chdir sample_os (clock (sample_world [])) (cwd (sample_world [])) ''/nonexistent-path''
       = Inl ''No such file or directory''
   \<and> (\<exists>w'. qwertysh_cd sample_os (argv [''cd'']) (sample_world []) = Inr (Some 1, w')
          \<and> cwd w' = ''/home'' \<and> stderr w' = cd_usage)
   \<and> (\<exists>w'. qwertysh_cd sample_os (argv [''cd'', ''/nonexistent-path'']) (sample_world [])
            = Inr (Some 1, w')
          \<and> qwertysh_execute sample_os (argv [''cd'', ''/nonexistent-path'']) (sample_world [])
            = Inr (1, w')
          \<and> cwd w' = ''/home''
          \<and> stderr w' = ''qwertysh: '' @ errno_msg w' @ [NEWLINE])"
proof -
  let ?w = "sample_world []"
  let ?a1 = "argv [''cd'']"
  let ?a2 = "argv [''cd'', ''/nonexistent-path'']"
  have a: "aread ?a1 1 = Some None"
    and a1: "aread ?a2 1 = Some (Some ''/nonexistent-path'')"
    and a0: "aread ?a2 0 = Some (Some ''cd'')"
    by (simp_all add: aread_def argv_def)
  have b: "os_chdir sample_os (clock ?w) (cwd ?w) ''/nonexistent-path''
      = Inl ''No such file or directory''"
    by (simp add: sample_os_def)
  have c: "stderr ?w = []" "cwd ?w = ''/home''"
    by (simp_all add: sample_world_def)
  have h2: "aread ?a2 1 = Some None \<or>
           (\<exists>dir err. aread ?a2 1 = Some (Some dir) \<and>
              os_chdir sample_os (clock ?w) (cwd ?w) dir = Inl err)"
    using a1 b by blast
  from qwertysh_cd_failure [of ?a1 sample_os ?w] a
  have 1: "\<exists>w'. qwertysh_cd sample_os ?a1 ?w = Inr (Some 1, w')
          \<and> cwd w' = ''/home'' \<and> stderr w' = cd_usage"
    by (auto simp: c)
  from qwertysh_cd_failure [OF h2] a0 a1
  have 2: "\<exists>w'. qwertysh_cd sample_os ?a2 ?w = Inr (Some 1, w')
          \<and> qwertysh_execute sample_os ?a2 ?w = Inr (1, w')
          \<and> cwd w' = ''/home''
          \<and> stderr w' = ''qwertysh: '' @ errno_msg w' @ [NEWLINE]"
    by (auto simp: c)
  from a a0 a1 b 1 2 show ?thesis
    by (simp only: simp_thms)
qed


lemma wait_loop_terminal:
  "wait_loop statuses \<noteq> None \<longleftrightarrow>
     (\<exists>status \<in> set statuses. WIFEXITED status \<or> WIFSIGNALED status)"
  by (induction statuses) auto

lemma qwertysh_launch_value:
  "qwertysh_launch os args w = Inr (r, w') \<Longrightarrow> r = 1"
  by (auto simp: qwertysh_launch_def launch_child_def
      split: fork_result.splits exec_result.splits option.splits)

lemma qwertysh_launch_blocked:
  assumes "os_fork os (clock w) args = Forked ExecRuns statuses"
    and "\<not> (\<exists>status \<in> set statuses. WIFEXITED status \<or> WIFSIGNALED status)"
  shows "qwertysh_launch os args w = Inl (Blocked, tick w)"
proof -
  from assms(2) have "wait_loop statuses = None"
    using wait_loop_terminal [of statuses] by blast
  with assms(1) show ?thesis
    by (simp add: qwertysh_launch_def launch_child_def)
qed

text \<open>
  Claim C3. Whatever \<^verbatim>\<open>qwertysh_launch\<close> returns is 1, and it does return, with 1, when
  \<^verbatim>\<open>fork\<close> fails, when \<^verbatim>\<open>execvp\<close> fails in the child, and when the program runs and
  \<^verbatim>\<open>waitpid\<close> reports that it exited (with any status) or was killed by a signal.
\<close>

theorem qwertysh_launch_continues:
  "(\<forall>r w'. qwertysh_launch os args w = Inr (r, w') \<longrightarrow> r = 1)
   \<and> (\<forall>err. os_fork os (clock w) args = ForkFailed err \<longrightarrow>
         qwertysh_launch os args w
           = Inr (1, w\<lparr>clock := Suc (clock w), errno_msg := err,
                       stderr := stderr w @ ''qwertysh: '' @ err @ [NEWLINE]\<rparr>))
   \<and> (\<forall>err statuses. os_fork os (clock w) args = Forked (ExecFailed err) statuses \<longrightarrow>
         qwertysh_launch os args w
           = Inr (1, w\<lparr>clock := Suc (clock w),
                       stderr := stderr w @ ''qwertysh: '' @ err @ [NEWLINE]\<rparr>))
   \<and> (\<forall>statuses. os_fork os (clock w) args = Forked ExecRuns statuses \<and>
         (\<exists>status \<in> set statuses. WIFEXITED status \<or> WIFSIGNALED status) \<longrightarrow>
         qwertysh_launch os args w = Inr (1, w\<lparr>clock := Suc (clock w)\<rparr>))"
proof (intro conjI allI impI)
  fix r w'
  assume "qwertysh_launch os args w = Inr (r, w')"
  then show "r = 1"
    by (rule qwertysh_launch_value)
next
  fix err
  assume "os_fork os (clock w) args = ForkFailed err"
  then show "qwertysh_launch os args w
           = Inr (1, w\<lparr>clock := Suc (clock w), errno_msg := err,
                       stderr := stderr w @ ''qwertysh: '' @ err @ [NEWLINE]\<rparr>)"
    by (simp add: qwertysh_launch_def perror_def tick_def)
next
  fix err statuses
  assume f: "os_fork os (clock w) args = Forked (ExecFailed err) statuses"
  have "wait_loop (statuses @ [Exited EXIT_FAILURE]) \<noteq> None"
    unfolding wait_loop_terminal by simp
  with f show "qwertysh_launch os args w
           = Inr (1, w\<lparr>clock := Suc (clock w),
                       stderr := stderr w @ ''qwertysh: '' @ err @ [NEWLINE]\<rparr>)"
    by (auto simp: qwertysh_launch_def launch_child_def tick_def)
next
  fix statuses
  assume f: "os_fork os (clock w) args = Forked ExecRuns statuses \<and>
         (\<exists>status \<in> set statuses. WIFEXITED status \<or> WIFSIGNALED status)"
  then have "wait_loop statuses \<noteq> None"
    using wait_loop_terminal [of statuses] by blast
  with f show "qwertysh_launch os args w = Inr (1, w\<lparr>clock := Suc (clock w)\<rparr>)"
    by (auto simp: qwertysh_launch_def launch_child_def tick_def)
qed

theorem qwertysh_launch_continues_witness:
  "os_fork sample_os (clock (sample_world [])) (argv [''nofork''])
     = ForkFailed ''Resource temporarily unavailable''
   \<and> qwertysh_launch sample_os (argv [''nofork'']) (sample_world [])
     = Inr (1, (sample_world [])\<lparr>clock := Suc (clock (sample_world [])),
                 errno_msg := ''Resource temporarily unavailable'',
                 stderr := stderr (sample_world []) @ ''qwertysh: ''
                   @ ''Resource temporarily unavailable'' @ [NEWLINE]\<rparr>)
   \<and> os_fork sample_os (clock (sample_world [])) (argv [''nosuch''])
     = Forked (ExecFailed ''No such file or directory'') []
   \<and> qwertysh_launch sample_os (argv [''nosuch'']) (sample_world [])
     = Inr (1, (sample_world [])\<lparr>clock := Suc (clock (sample_world [])),
                 stderr := stderr (sample_world []) @ ''qwertysh: ''
                   @ ''No such file or directory'' @ [NEWLINE]\<rparr>)
   \<and> os_fork sample_os (clock (sample_world [])) (argv [''sleep'', ''9''])
     = Forked ExecRuns [Stopped 19, Signaled 9]
   \<and> WIFSIGNALED (Signaled 9)
   \<and> qwertysh_launch sample_os (argv [''sleep'', ''9'']) (sample_world [])
     = Inr (1, (sample_world [])\<lparr>clock := Suc (clock (sample_world []))\<rparr>)
   \<and> os_fork sample_os (clock (sample_world [])) (argv [''ls''])
     = Forked ExecRuns [Exited 0]
   \<and> WIFEXITED (Exited 0)
   \<and> qwertysh_launch sample_os (argv [''ls'']) (sample_world [])
     = Inr (1, (sample_world [])\<lparr>clock := Suc (clock (sample_world []))\<rparr>)"
proof -
  let ?w = "sample_world []"
  have f1: "os_fork sample_os (clock ?w) (argv [''nofork''])
      = ForkFailed ''Resource temporarily unavailable''"
    and f2: "os_fork sample_os (clock ?w) (argv [''nosuch''])
      = Forked (ExecFailed ''No such file or directory'') []"
    and f3: "os_fork sample_os (clock ?w) (argv [''sleep'', ''9''])
      = Forked ExecRuns [Stopped 19, Signaled 9]"
    and f4: "os_fork sample_os (clock ?w) (argv [''ls'']) = Forked ExecRuns [Exited 0]"
    by (simp_all add: sample_os_def aread_argv_0)
  have s3: "\<exists>status \<in> set [Stopped 19, Signaled 9]. WIFEXITED status \<or> WIFSIGNALED status"
    and s4: "\<exists>status \<in> set [Exited 0]. WIFEXITED status \<or> WIFSIGNALED status"
    by simp_all
  note t = qwertysh_launch_continues [of sample_os _ ?w]
  from t [of "argv [''nofork'']"] f1
  have 1: "qwertysh_launch sample_os (argv [''nofork'']) ?w
     = Inr (1, ?w\<lparr>clock := Suc (clock ?w), errno_msg := ''Resource temporarily unavailable'',
                 stderr := stderr ?w @ ''qwertysh: ''
                   @ ''Resource temporarily unavailable'' @ [NEWLINE]\<rparr>)"
    by blast
  from t [of "argv [''nosuch'']"] f2
  have 2: "qwertysh_launch sample_os (argv [''nosuch'']) ?w
     = Inr (1, ?w\<lparr>clock := Suc (clock ?w),
                 stderr := stderr ?w @ ''qwertysh: '' @ ''No such file or directory'' @ [NEWLINE]\<rparr>)"
    by blast
  from t [of "argv [''sleep'', ''9'']"] f3 s3
  have 3: "qwertysh_launch sample_os (argv [''sleep'', ''9'']) ?w
     = Inr (1, ?w\<lparr>clock := Suc (clock ?w)\<rparr>)"
    by blast
  from t [of "argv [''ls'']"] f4 s4
  have 4: "qwertysh_launch sample_os (argv [''ls'']) ?w = Inr (1, ?w\<lparr>clock := Suc (clock ?w)\<rparr>)"
    by blast
  have 5: "WIFSIGNALED (Signaled 9)" "WIFEXITED (Exited 0)"
    by simp_all
  from f1 f2 f3 f4 1 2 3 4 5 show ?thesis
    by (simp only: simp_thms)
qed

section \<open>The tokenizer\<close>

lemma strtok_delimiters_only:
  "set s \<subseteq> set delim \<Longrightarrow> strtok s delim = (None, [])"
proof -
  assume "set s \<subseteq> set delim"
  then have "dropWhile (\<lambda>c. c \<in> set delim) s = []"
    by (simp add: subset_iff)
  then show ?thesis
    by (simp add: strtok_def)
qed

lemma strtok_token:
  assumes "strtok s delim = (Some t, s')"
  shows "t \<noteq> [] \<and> set t \<inter> set delim = {}"
proof -
  define s1 where "s1 = dropWhile (\<lambda>c. c \<in> set delim) s"
  from assms have ne: "s1 \<noteq> []" and t: "t = takeWhile (\<lambda>c. c \<notin> set delim) s1"
    by (auto simp: strtok_def s1_def Let_def split: if_splits)
  from ne have "hd s1 \<notin> set delim"
    unfolding s1_def by (rule hd_dropWhile)
  with ne t have "t \<noteq> []"
    by (cases s1) auto
  moreover have "set t \<inter> set delim = {}"
    unfolding t by (auto dest: set_takeWhileD)
  ultimately show ?thesis ..
qed

lemma strtok_rest_shorter:
  assumes "strtok s delim = (Some t, s')"
  shows "length s' < length s"
proof -
  define s1 where "s1 = dropWhile (\<lambda>c. c \<in> set delim) s"
  from assms have ne: "s1 \<noteq> []" and s': "s' = drop 1 (dropWhile (\<lambda>c. c \<notin> set delim) s1)"
    by (auto simp: strtok_def s1_def Let_def split: if_splits)
  have "length (dropWhile (\<lambda>c. c \<notin> set delim) s1) \<le> length s1"
    by (rule length_dropWhile_le)
  with ne s' have "length s' < length s1"
    by (cases s1) auto
  moreover have "length s1 \<le> length s"
    unfolding s1_def by (rule length_dropWhile_le)
  ultimately show ?thesis by simp
qed


lemma tokens_from_ok:
  "(\<And>t. token = Some t \<Longrightarrow> token_ok t) \<Longrightarrow> t \<in> set (tokens_from token saved) \<Longrightarrow> token_ok t"
proof (induction token saved rule: tokens_from.induct)
  case (1 saved)
  then show ?case by simp
next
  case (2 token saved)
  obtain token1 saved1 where s: "strtok saved qwertysh_TOK_DELIM = (token1, saved1)"
    by (cases "strtok saved qwertysh_TOK_DELIM")
  have ok1: "token_ok u" if "token1 = Some u" for u
    using strtok_token [of saved qwertysh_TOK_DELIM u saved1] s that
    by (simp add: token_ok_def)
  from "2.prems"(2) s have "t = token \<or> t \<in> set (tokens_from token1 saved1)"
    by simp
  then show ?case
  proof
    assume "t = token"
    then show ?thesis using "2.prems"(1) by simp
  next
    assume "t \<in> set (tokens_from token1 saved1)"
    then show ?thesis
      using "2.IH" [OF s [symmetric]] ok1 by blast
  qed
qed

lemma tokens_of_ok: "t \<in> set (tokens_of line) \<Longrightarrow> token_ok t"
proof -
  assume a: "t \<in> set (tokens_of line)"
  obtain token saved where s: "strtok line qwertysh_TOK_DELIM = (token, saved)"
    by (cases "strtok line qwertysh_TOK_DELIM")
  have "token_ok u" if "token = Some u" for u
    using strtok_token [of line qwertysh_TOK_DELIM u saved] s that
    by (simp add: token_ok_def)
  moreover from a s have "t \<in> set (tokens_from token saved)"
    by (simp add: tokens_of_def)
  ultimately show ?thesis
    by (rule tokens_from_ok)
qed

lemma tokens_from_length:
  "length (tokens_from token saved) \<le> (case token of None \<Rightarrow> 0 | Some t \<Rightarrow> Suc (length saved))"
proof (induction token saved rule: tokens_from.induct)
  case (1 saved)
  then show ?case by simp
next
  case (2 token saved)
  obtain token1 saved1 where s: "strtok saved qwertysh_TOK_DELIM = (token1, saved1)"
    by (cases "strtok saved qwertysh_TOK_DELIM")
  show ?case
  proof (cases token1)
    case None
    with s show ?thesis by simp
  next
    case (Some u)
    with s have "length saved1 < length saved"
      using strtok_rest_shorter by blast
    with "2.IH" [OF s [symmetric]] s Some show ?thesis
      by simp
  qed
qed

lemma tokens_of_length: "length (tokens_of line) \<le> length line"
proof -
  obtain token saved where s: "strtok line qwertysh_TOK_DELIM = (token, saved)"
    by (cases "strtok line qwertysh_TOK_DELIM")
  show ?thesis
  proof (cases token)
    case None
    with s show ?thesis by (simp add: tokens_of_def)
  next
    case (Some u)
    with s have "length saved < length line"
      using strtok_rest_shorter by blast
    with tokens_from_length [of token saved] s Some show ?thesis
      by (simp add: tokens_of_def)
  qed
qed

lemma take_Suc_update: "i < length xs \<Longrightarrow> take (Suc i) (xs[i := x]) = take i xs @ [x]"
  by (simp add: take_Suc_conv_app_nth)

lemma take_Suc_update_append:
  "i < length xs \<Longrightarrow> take (Suc i) (xs[i := x] @ ys) = take i xs @ [x]"
  by (simp add: take_Suc_conv_app_nth nth_append)

lemma split_store_Inr:
  assumes st: "split_store os token bufsize position tokens w = Inr ((bufsize1, position1, tokens1), w1)"
    and inv: "0 \<le> position" "position < bufsize" "length tokens = nat bufsize"
  shows "position1 = position + 1 \<and> position1 < bufsize1 \<and> length tokens1 = nat bufsize1
    \<and> take (Suc (nat position)) tokens1 = take (nat position) tokens @ [Some (Some token)]
    \<and> w1 = w\<lparr>clock := clock w1\<rparr>"
proof -
  let ?t = "tokens[nat position := Some (Some token)]"
  from inv have i: "nat position < length tokens"
    by simp
  from st inv have shape: "tokens1 = ?t \<and> bufsize1 = bufsize \<and> position + 1 < bufsize \<and> w1 = w
      \<or> tokens1 = ?t @ replicate (nat (bufsize + 64) - nat bufsize) None
        \<and> bufsize1 = bufsize + 64 \<and> bufsize \<le> position + 1 \<and> w1 = w\<lparr>clock := Suc (clock w)\<rparr>"
    and p: "position1 = position + 1"
    by (auto simp: split_store_def awrite_def int_add_def realloc_def tick_def
        qwertysh_TOK_BUFSIZE_def split: option.splits if_splits)
  from shape i have "take (Suc (nat position)) tokens1 = take (nat position) tokens @ [Some (Some token)]"
    using take_Suc_update_append [OF i, of "Some (Some token)" "[]"]
      take_Suc_update_append [OF i, of "Some (Some token)"]
    by auto
  moreover from shape inv have "length tokens1 = nat bufsize1"
    by auto
  moreover from shape inv p have "position1 < bufsize1"
    by auto
  moreover from shape have "w1 = w\<lparr>clock := clock w1\<rparr>"
    by auto
  ultimately show ?thesis
    using p by simp
qed

lemma split_store_total:
  assumes "0 \<le> position" and "position < bufsize" and "length tokens = nat bufsize"
    and "os_alloc os (clock w)" and "position + 65 \<le> INT_MAX"
  shows "\<exists>r. split_store os token bufsize position tokens w = Inr r"
  using assms
  by (auto simp: split_store_def awrite_def int_add_def realloc_def tick_def
      qwertysh_TOK_BUFSIZE_def INT_MAX_def)

lemma split_loop_Inr:
  "split_loop os token saved bufsize position tokens w = Inr (args, w') \<Longrightarrow>
   0 \<le> position \<Longrightarrow> position < bufsize \<Longrightarrow> length tokens = nat bufsize \<Longrightarrow>
   take (Suc (nat position + length (tokens_from token saved))) args
     = take (nat position) tokens @ map (\<lambda>t. Some (Some t)) (tokens_from token saved) @ [Some None]
   \<and> w' = w\<lparr>clock := clock w'\<rparr>"
proof (induction os token saved bufsize position tokens w rule: split_loop.induct)
  case (1 os saved bufsize position tokens w)
  then show ?case
    by (auto simp: split_loop.simps awrite_def take_Suc_update split: if_splits)
next
  case (2 os token saved bufsize position tokens w)
  from "2.prems"(1) obtain bufsize1 position1 tokens1 w1
    where st: "split_store os token bufsize position tokens w = Inr ((bufsize1, position1, tokens1), w1)"
    by (auto simp: split_loop.simps split: sum.splits)
  obtain token1 saved1 where s: "strtok saved qwertysh_TOK_DELIM = (token1, saved1)"
    by (cases "strtok saved qwertysh_TOK_DELIM")
  from "2.prems"(1) st s
  have rec: "split_loop os token1 saved1 bufsize1 position1 tokens1 w1 = Inr (args, w')"
    by (simp add: split_loop.simps)
  note f = split_store_Inr [OF st "2.prems"(2,3,4)]
  from f "2.prems"(2) have p1: "0 \<le> position1" "nat position1 = Suc (nat position)"
    by auto
  from "2.IH" [OF st refl refl refl s [symmetric] rec p1(1)] f
  have ih: "take (Suc (nat position1 + length (tokens_from token1 saved1))) args
     = take (nat position1) tokens1 @ map (\<lambda>t. Some (Some t)) (tokens_from token1 saved1) @ [Some None]"
    and w: "w' = w1\<lparr>clock := clock w'\<rparr>"
    by simp_all
  from f have "take (nat position1) tokens1 = take (nat position) tokens @ [Some (Some token)]"
    unfolding p1 by simp
  with ih s have "take (Suc (nat position + length (tokens_from (Some token) saved))) args
     = take (nat position) tokens
         @ map (\<lambda>t. Some (Some t)) (tokens_from (Some token) saved) @ [Some None]"
    by (simp add: p1)
  moreover from f w have "w' = w\<lparr>clock := clock w'\<rparr>"
    by (metis world.update_convs(6) world.surjective)
  ultimately show ?case ..
qed

lemma split_loop_total:
  "\<forall>t. os_alloc os t \<Longrightarrow>
   0 \<le> position \<Longrightarrow> position < bufsize \<Longrightarrow> length tokens = nat bufsize \<Longrightarrow>
   position + int (length (tokens_from token saved)) + 64 \<le> INT_MAX \<Longrightarrow>
   \<exists>args w'. split_loop os token saved bufsize position tokens w = Inr (args, w')"
proof (induction os token saved bufsize position tokens w rule: split_loop.induct)
  case (1 os saved bufsize position tokens w)
  then show ?case
    by (simp add: split_loop.simps awrite_def)
next
  case (2 os token saved bufsize position tokens w)
  obtain token1 saved1 where s: "strtok saved qwertysh_TOK_DELIM = (token1, saved1)"
    by (cases "strtok saved qwertysh_TOK_DELIM")
  have len: "length (tokens_from (Some token) saved) = Suc (length (tokens_from token1 saved1))"
    by (simp add: s)
  from "2.prems"(5) have "position + 65 \<le> INT_MAX"
    unfolding len by simp
  with "2.prems" obtain bufsize1 position1 tokens1 w1
    where st: "split_store os token bufsize position tokens w = Inr ((bufsize1, position1, tokens1), w1)"
    using split_store_total [of position bufsize tokens os w token] by (metis prod_cases3 surj_pair)
  note f = split_store_Inr [OF st "2.prems"(2,3,4)]
  from f "2.prems" have
    "0 \<le> position1" "position1 < bufsize1" "length tokens1 = nat bufsize1"
    "position1 + int (length (tokens_from token1 saved1)) + 64 \<le> INT_MAX"
    unfolding len by auto
  from "2.IH" [OF st refl refl refl s [symmetric] "2.prems"(1) this]
  show ?case
    using st s by (simp add: split_loop.simps)
qed

lemma qwertysh_split_line_Inr:
  assumes "qwertysh_split_line os line w = Inr (args, w')"
  shows "take (Suc (length (tokens_of line))) args
           = map (\<lambda>t. Some (Some t)) (tokens_of line) @ [Some None]
         \<and> w' = w\<lparr>clock := clock w'\<rparr>"
proof -
  obtain token saved where s: "strtok line qwertysh_TOK_DELIM = (token, saved)"
    by (cases "strtok line qwertysh_TOK_DELIM")
  from assms s
  have l: "split_loop os token saved qwertysh_TOK_BUFSIZE 0
             (replicate (nat qwertysh_TOK_BUFSIZE) None) (tick w) = Inr (args, w')"
    by (auto simp: qwertysh_split_line_def malloc_def split: if_splits)
  have "take (Suc (nat 0 + length (tokens_from token saved))) args
     = take (nat 0) (replicate (nat qwertysh_TOK_BUFSIZE) None)
         @ map (\<lambda>t. Some (Some t)) (tokens_from token saved) @ [Some None]
     \<and> w' = (tick w)\<lparr>clock := clock w'\<rparr>"
    by (rule split_loop_Inr [OF l]) (simp_all add: qwertysh_TOK_BUFSIZE_def)
  with s show ?thesis
    by (simp add: tokens_of_def tick_def)
qed

lemma qwertysh_split_line_total:
  assumes "\<forall>t. os_alloc os t" and "int (length line) + 64 \<le> INT_MAX"
  shows "\<exists>args w'. qwertysh_split_line os line w = Inr (args, w')"
proof -
  obtain token saved where s: "strtok line qwertysh_TOK_DELIM = (token, saved)"
    by (cases "strtok line qwertysh_TOK_DELIM")
  have "length (tokens_from token saved) \<le> length line"
    using tokens_of_length [of line] s by (simp add: tokens_of_def)
  with assms(2) have "0 + int (length (tokens_from token saved)) + 64 \<le> INT_MAX"
    by simp
  with assms(1)
  have "\<exists>args w'. split_loop os token saved qwertysh_TOK_BUFSIZE 0
             (replicate (nat qwertysh_TOK_BUFSIZE) None) (tick w) = Inr (args, w')"
    by (intro split_loop_total) (simp_all add: qwertysh_TOK_BUFSIZE_def)
  with assms(1) s show ?thesis
    by (simp add: qwertysh_split_line_def malloc_def)
qed

lemma qwertysh_execute_empty:
  "aread args 0 = Some None \<Longrightarrow> qwertysh_execute os args w = Inr (1, w)"
  by (simp add: qwertysh_execute_def)

text \<open>
  Claim C4. For a line made of delimiter characters only (the empty line among them) the
  first \<^verbatim>\<open>strtok\<close> call finds no token, \<^verbatim>\<open>qwertysh_split_line\<close> returns a vector whose
  first entry is \<^verbatim>\<open>NULL\<close>, and on such a vector \<^verbatim>\<open>qwertysh_execute\<close> returns 1 and leaves
  the world as it found it: nothing is printed, the directory stays, no process is requested.
\<close>

theorem qwertysh_blank_line:
  assumes "set line \<subseteq> set qwertysh_TOK_DELIM" and "os_alloc os (clock w)"
  shows "tokens_of line = []
    \<and> qwertysh_split_line os line w = Inr ((replicate 64 None)[0 := Some None], tick w)
    \<and> aread ((replicate 64 None)[0 := Some None]) 0 = Some None
    \<and> qwertysh_execute os ((replicate 64 None)[0 := Some None]) (tick w) = Inr (1, tick w)"
proof -
  from assms(1) have s: "strtok line qwertysh_TOK_DELIM = (None, [])"
    by (rule strtok_delimiters_only)
  then have "tokens_of line = []"
    by (simp add: tokens_of_def)
  moreover from s assms(2)
  have "qwertysh_split_line os line w = Inr ((replicate 64 None)[0 := Some None], tick w)"
    by (simp add: qwertysh_split_line_def malloc_def split_loop.simps awrite_def
        qwertysh_TOK_BUFSIZE_def)
  moreover have a: "aread ((replicate 64 None)[0 := Some None]) 0 = Some None"
    by (simp add: aread_def)
  moreover from a
  have "qwertysh_execute os ((replicate 64 None)[0 := Some None]) (tick w) = Inr (1, tick w)"
    by (rule qwertysh_execute_empty)
  ultimately show ?thesis
    by simp
qed

theorem qwertysh_blank_line_witness:
  "set [CHR '' '', CHR 0x09, CHR '' ''] \<subseteq> set qwertysh_TOK_DELIM
   \<and> os_alloc sample_os (clock (sample_world []))
   \<and> qwertysh_split_line sample_os [CHR '' '', CHR 0x09, CHR '' ''] (sample_world [])
       = Inr ((replicate 64 None)[0 := Some None], tick (sample_world []))
   \<and> qwertysh_execute sample_os ((replicate 64 None)[0 := Some None]) (tick (sample_world []))
       = Inr (1, tick (sample_world []))"
proof -
  have a: "set [CHR '' '', CHR 0x09, CHR '' ''] \<subseteq> set qwertysh_TOK_DELIM"
    by (simp add: qwertysh_TOK_DELIM_def)
  have b: "os_alloc sample_os (clock (sample_world []))"
    by (simp add: sample_os_def)
  from qwertysh_blank_line [OF a b] a b show ?thesis
    by blast
qed

lemma pieces_run:
  "pieces s = takeWhile (\<lambda>c. c \<notin> set qwertysh_TOK_DELIM) s
     # (case dropWhile (\<lambda>c. c \<notin> set qwertysh_TOK_DELIM) s of [] \<Rightarrow> [] | d # rest \<Rightarrow> pieces rest)"
  by (induction s) (auto split: list.splits)

lemma tokens_spec_delimiter:
  "c \<in> set qwertysh_TOK_DELIM \<Longrightarrow> tokens_spec (c # cs) = tokens_spec cs"
  by (simp add: tokens_spec_def)

lemma tokens_spec_skip:
  "tokens_spec (dropWhile (\<lambda>c. c \<in> set qwertysh_TOK_DELIM) s) = tokens_spec s"
  by (induction s) (simp_all add: tokens_spec_delimiter)

lemma tokens_spec_after:
  "filter (\<lambda>t. t \<noteq> []) (case d of [] \<Rightarrow> [] | x # rest \<Rightarrow> pieces rest) = tokens_spec (drop 1 d)"
  by (cases d) (simp_all add: tokens_spec_def)

lemma tokens_spec_run:
  assumes "s \<noteq> []" and "hd s \<notin> set qwertysh_TOK_DELIM"
  shows "tokens_spec s = takeWhile (\<lambda>c. c \<notin> set qwertysh_TOK_DELIM) s
     # tokens_spec (drop 1 (dropWhile (\<lambda>c. c \<notin> set qwertysh_TOK_DELIM) s))"
proof -
  from assms have ne: "takeWhile (\<lambda>c. c \<notin> set qwertysh_TOK_DELIM) s \<noteq> []"
    by (cases s) auto
  have "tokens_spec s = filter (\<lambda>t. t \<noteq> []) (pieces s)"
    by (simp add: tokens_spec_def)
  also have "\<dots> = takeWhile (\<lambda>c. c \<notin> set qwertysh_TOK_DELIM) s
     # filter (\<lambda>t. t \<noteq> [])
         (case dropWhile (\<lambda>c. c \<notin> set qwertysh_TOK_DELIM) s of [] \<Rightarrow> [] | d # rest \<Rightarrow> pieces rest)"
    by (subst pieces_run) (simp add: ne)
  also have "filter (\<lambda>t. t \<noteq> [])
         (case dropWhile (\<lambda>c. c \<notin> set qwertysh_TOK_DELIM) s of [] \<Rightarrow> [] | d # rest \<Rightarrow> pieces rest)
       = tokens_spec (drop 1 (dropWhile (\<lambda>c. c \<notin> set qwertysh_TOK_DELIM) s))"
    by (rule tokens_spec_after)
  finally show ?thesis .
qed

lemma tokens_of_unfold:
  "tokens_of s =
     (case strtok s qwertysh_TOK_DELIM of (None, saved) \<Rightarrow> [] | (Some t, saved) \<Rightarrow> t # tokens_of saved)"
  by (cases "strtok s qwertysh_TOK_DELIM") (auto simp: tokens_of_def split: option.splits)

lemma tokens_of_spec: "tokens_of line = tokens_spec line"
proof (induction line rule: length_induct)
  case (1 line)
  let ?s1 = "dropWhile (\<lambda>c. c \<in> set qwertysh_TOK_DELIM) line"
  show ?case
  proof (cases "?s1 = []")
    case True
    then have "strtok line qwertysh_TOK_DELIM = (None, [])"
      by (simp add: strtok_def)
    then have "tokens_of line = []"
      by (simp add: tokens_of_def)
    moreover have "tokens_spec line = tokens_spec ?s1"
      by (simp only: tokens_spec_skip)
    then have "tokens_spec line = []"
      unfolding True by (simp add: tokens_spec_def)
    ultimately show ?thesis
      by simp
  next
    case False
    let ?t = "takeWhile (\<lambda>c. c \<notin> set qwertysh_TOK_DELIM) ?s1"
    let ?saved = "drop 1 (dropWhile (\<lambda>c. c \<notin> set qwertysh_TOK_DELIM) ?s1)"
    from False have s: "strtok line qwertysh_TOK_DELIM = (Some ?t, ?saved)"
      by (simp add: strtok_def Let_def)
    then have "length ?saved < length line"
      by (rule strtok_rest_shorter)
    with "1.IH" have ih: "tokens_of ?saved = tokens_spec ?saved"
      by blast
    from False have "hd ?s1 \<notin> set qwertysh_TOK_DELIM"
      by (rule hd_dropWhile)
    with False have "tokens_spec ?s1 = ?t # tokens_spec ?saved"
      by (rule tokens_spec_run)
    then have "tokens_spec line = ?t # tokens_spec ?saved"
      by (simp add: tokens_spec_skip)
    moreover from s have "tokens_of line = ?t # tokens_of ?saved"
      by (subst tokens_of_unfold) simp
    ultimately show ?thesis
      using ih by simp
  qed
qed

text \<open>
  Claim C5. On the line \<open>echo  hello   world\<close> the tokenizer returns a vector whose first
  four entries are pointers to \<open>echo\<close>, \<open>hello\<close> and \<open>world\<close>, in that order, and
  \<^verbatim>\<open>NULL\<close>: the runs of two and three spaces yield no empty token. On every line the
  tokens that \<^verbatim>\<open>strtok\<close> delivers are the non-empty pieces between delimiters, in the
  order of the line.
\<close>

theorem qwertysh_split_line_echo:
  assumes "os_alloc os (clock w)"
  shows "tokens_of ''echo  hello   world'' = [''echo'', ''hello'', ''world'']
    \<and> (\<exists>args. qwertysh_split_line os ''echo  hello   world'' w = Inr (args, tick w)
          \<and> length args = 64
          \<and> take 4 args = [Some (Some ''echo''), Some (Some ''hello''), Some (Some ''world''), Some None])
    \<and> (\<forall>line. tokens_of line = tokens_spec line)"
proof -
  have t: "tokens_of ''echo  hello   world'' = [''echo'', ''hello'', ''world'']"
    by (simp add: tokens_of_def strtok_def qwertysh_TOK_DELIM_def)
  from assms
  have "qwertysh_split_line os ''echo  hello   world'' w
      = Inr ((replicate 64 None)[0 := Some (Some ''echo''), 1 := Some (Some ''hello''),
               2 := Some (Some ''world''), 3 := Some None], tick w)"
    by (simp add: qwertysh_split_line_def malloc_def strtok_def qwertysh_TOK_DELIM_def
        split_loop.simps split_store_def awrite_def int_add_def INT_MAX_def
        qwertysh_TOK_BUFSIZE_def)
  moreover have "take 4 ((replicate 64 None)[0 := Some (Some ''echo''), 1 := Some (Some ''hello''),
               2 := Some (Some ''world''), 3 := Some None])
     = [Some (Some ''echo''), Some (Some ''hello''), Some (Some ''world''), Some None]"
    by (simp add: numeral_eq_Suc)
  ultimately show ?thesis
    using t tokens_of_spec by simp
qed

theorem qwertysh_split_line_echo_witness:
  "os_alloc sample_os (clock (sample_world []))
   \<and> (\<exists>args. qwertysh_split_line sample_os ''echo  hello   world'' (sample_world [])
          = Inr (args, tick (sample_world []))
        \<and> take 4 args = [Some (Some ''echo''), Some (Some ''hello''), Some (Some ''world''), Some None])"
proof -
  have b: "os_alloc sample_os (clock (sample_world []))"
    by (simp add: sample_os_def)
  from qwertysh_split_line_echo [OF b] b show ?thesis
    by blast
qed


text \<open>
  Claim C10. Whenever \<^verbatim>\<open>qwertysh_split_line\<close> returns, the vector starts with pointers to
  the tokens that \<^verbatim>\<open>strtok\<close> found, in order, followed by \<^verbatim>\<open>NULL\<close> (at index 0 when
  there is no token); every one of these tokens is a non-empty string without a space, tab,
  carriage return, newline or bell. It does return when no allocation fails and the line is
  short enough for the \<^verbatim>\<open>int\<close> counters.
\<close>

theorem qwertysh_split_line_tokens:
  "(\<forall>args w'. qwertysh_split_line os line w = Inr (args, w') \<longrightarrow>
      take (Suc (length (tokens_of line))) args
        = map (\<lambda>t. Some (Some t)) (tokens_of line) @ [Some None])
   \<and> (\<forall>t \<in> set (tokens_of line).
        t \<noteq> [] \<and> (\<forall>c \<in> set t. c \<notin> {CHR '' '', CHR 0x09, CHR 0x0D, CHR 0x0A, CHR 0x07}))
   \<and> ((\<forall>t. os_alloc os t) \<and> int (length line) + 64 \<le> INT_MAX \<longrightarrow>
        (\<exists>args w'. qwertysh_split_line os line w = Inr (args, w')))"
proof (intro conjI allI impI ballI)
  fix args w'
  assume "qwertysh_split_line os line w = Inr (args, w')"
  then show "take (Suc (length (tokens_of line))) args
        = map (\<lambda>t. Some (Some t)) (tokens_of line) @ [Some None]"
    using qwertysh_split_line_Inr by blast
next
  fix t
  assume "t \<in> set (tokens_of line)"
  then have ok: "token_ok t"
    by (rule tokens_of_ok)
  then show "t \<noteq> []"
    by (simp add: token_ok_def)
  fix c
  assume "c \<in> set t"
  with ok show "c \<notin> {CHR '' '', CHR 0x09, CHR 0x0D, CHR 0x0A, CHR 0x07}"
    by (auto simp: token_ok_def qwertysh_TOK_DELIM_def)
next
  assume "(\<forall>t. os_alloc os t) \<and> int (length line) + 64 \<le> INT_MAX"
  then show "\<exists>args w'. qwertysh_split_line os line w = Inr (args, w')"
    using qwertysh_split_line_total by blast
qed

theorem qwertysh_split_line_tokens_witness:
  "(\<forall>t. os_alloc sample_os t) \<and> int (length '' ls  -l '') + 64 \<le> INT_MAX
   \<and> tokens_of '' ls  -l '' = [''ls'', ''-l'']
   \<and> ''ls'' \<noteq> [] \<and> CHR ''l'' \<notin> {CHR '' '', CHR 0x09, CHR 0x0D, CHR 0x0A, CHR 0x07}
   \<and> (\<exists>args w'. qwertysh_split_line sample_os '' ls  -l '' (sample_world []) = Inr (args, w')
         \<and> take 3 args = [Some (Some ''ls''), Some (Some ''-l''), Some None])"
proof -
  have a: "\<forall>t. os_alloc sample_os t"
    by (simp add: sample_os_def)
  have b: "int (length '' ls  -l '') + 64 \<le> INT_MAX"
    by (simp add: INT_MAX_def)
  have c: "tokens_of '' ls  -l '' = [''ls'', ''-l'']"
    by (simp add: tokens_of_def strtok_def qwertysh_TOK_DELIM_def)
  note t = qwertysh_split_line_tokens [of sample_os "'' ls  -l ''" "sample_world []"]
  note t1 = t [THEN conjunct1, rule_format]
  note t2 = t [THEN conjunct2, THEN conjunct1, rule_format]
  note t3 = t [THEN conjunct2, THEN conjunct2, rule_format]
  from t3 [OF conjI [OF a b]] obtain args w'
    where r: "qwertysh_split_line sample_os '' ls  -l '' (sample_world []) = Inr (args, w')"
    by blast
  from t1 [OF r] have d: "take 3 args = [Some (Some ''ls''), Some (Some ''-l''), Some None]"
    unfolding c by (simp add: numeral_3_eq_3)
  have m: "''ls'' \<in> set (tokens_of '' ls  -l '')"
    unfolding c by simp
  have n: "CHR ''l'' \<in> set ''ls''"
    by simp
  from t2 [OF m] have e1: "''ls'' \<noteq> []"
    by (rule conjunct1)
  from t2 [OF m] n have e2: "CHR ''l'' \<notin> {CHR '' '', CHR 0x09, CHR 0x0D, CHR 0x0A, CHR 0x07}"
    by (simp only: simp_thms)
  from r d have x: "\<exists>args w'. qwertysh_split_line sample_os '' ls  -l '' (sample_world []) = Inr (args, w')
         \<and> take 3 args = [Some (Some ''ls''), Some (Some ''-l''), Some None]"
    by blast
  from a b c e1 e2 x show ?thesis
    by (intro conjI)
qed

section \<open>The line reader\<close>

lemma of_char_not_EOF: "(of_char c :: int) \<noteq> EOF"
proof -
  have "(0::int) \<le> of_char c"
    by (simp add: of_char_def)
  then show ?thesis
    by (simp add: EOF_def)
qed

lemma read_loop_end:
  assumes "stdin w = [] \<or> (\<exists>cs. stdin w = NEWLINE # cs)"
  shows "read_loop os bufsize position buffer w =
     (case awrite buffer position NUL of
        None \<Rightarrow> Inl (Undefined_Behaviour, w\<lparr>stdin := drop 1 (stdin w)\<rparr>)
      | Some buffer1 \<Rightarrow> Inr (buffer1, w\<lparr>stdin := drop 1 (stdin w)\<rparr>))"
  using assms
  by (subst read_loop.simps) (auto simp: getchar_def split: option.splits)

lemma read_loop_char:
  assumes "stdin w = c # cs" and "c \<noteq> NEWLINE"
  shows "read_loop os bufsize position buffer w =
     (case awrite buffer position c of
        None \<Rightarrow> Inl (Undefined_Behaviour, w\<lparr>stdin := cs\<rparr>)
      | Some buffer1 \<Rightarrow>
          (case read_advance os bufsize position buffer1 (w\<lparr>stdin := cs\<rparr>) of
             Inl f \<Rightarrow> Inl f
           | Inr ((bufsize2, position2, buffer2), w2) \<Rightarrow>
               read_loop os bufsize2 position2 buffer2 w2))"
  using assms
  by (subst read_loop.simps) (simp add: getchar_def of_char_not_EOF)

lemma read_advance_cases:
  assumes "0 \<le> position" and "position < bufsize" and "length buffer = nat bufsize"
    and "position + 1025 \<le> INT_MAX"
  shows "read_advance os bufsize position buffer w =
     (if position + 1 < bufsize then Inr ((bufsize, position + 1, buffer), w)
      else if os_alloc os (clock w)
        then Inr ((bufsize + 1024, position + 1, buffer @ replicate 1024 None), tick w)
        else Inl (Exit_Failure, fprintf_stderr alloc_error (tick w)))"
proof -
  from assms have "nat (bufsize + 1024) - nat bufsize = 1024"
    by simp
  with assms show ?thesis
    by (simp add: read_advance_def int_add_def INT_MAX_def realloc_def
        qwertysh_RL_BUFSIZE_def)
qed

lemma capacity_step:
  fixes position :: int
  assumes "0 \<le> position" and "bufsize = 1024 * (position div 1024 + 1)"
  shows "position < bufsize"
    and "position + 1 < bufsize \<Longrightarrow> bufsize = 1024 * ((position + 1) div 1024 + 1)"
    and "\<not> position + 1 < bufsize \<Longrightarrow> bufsize + 1024 = 1024 * ((position + 1) div 1024 + 1)"
proof -
  define q where "q = position div 1024"
  define r where "r = position mod 1024"
  have p: "position = 1024 * q + r"
    by (simp add: q_def r_def)
  have r: "0 \<le> r" "r < 1024"
    by (simp_all add: r_def)
  have b: "bufsize = 1024 * (q + 1)"
    using assms(2) by (simp add: q_def)
  from p r b show "position < bufsize"
    by simp
  {
    assume "position + 1 < bufsize"
    with p b have "r + 1 < 1024"
      by simp
    with p r have "(position + 1) div 1024 = q"
      by (intro int_div_pos_eq [where r = "r + 1"]) simp_all
    with b show "bufsize = 1024 * ((position + 1) div 1024 + 1)"
      by simp
  }
  {
    assume "\<not> position + 1 < bufsize"
    with p b r have "r = 1023"
      by simp
    with p have "(position + 1) div 1024 = q + 1"
      by (intro int_div_pos_eq [where r = 0]) simp_all
    with b show "bufsize + 1024 = 1024 * ((position + 1) div 1024 + 1)"
      by simp
  }
qed

lemma read_loop_result:
  assumes "stdin w = line @ rest" and "NEWLINE \<notin> set line" and "rest = [] \<or> hd rest = NEWLINE"
    and "0 \<le> position" and "bufsize = 1024 * (position div 1024 + 1)"
    and "length buffer = nat bufsize"
    and "position + int (length line) + 1024 \<le> INT_MAX"
  shows "case read_loop os bufsize position buffer w of
           Inl (f, w') \<Rightarrow> f = Exit_Failure \<and> (\<exists>t. \<not> os_alloc os t)
         | Inr (buffer', w') \<Rightarrow>
             take (Suc (nat position + length line)) buffer'
               = take (nat position) buffer @ map Some line @ [Some NUL]
             \<and> int (length buffer') = 1024 * ((position + int (length line)) div 1024 + 1)
             \<and> w' = w\<lparr>stdin := drop 1 rest, clock := clock w'\<rparr>"
  using assms
proof (induction line arbitrary: position bufsize buffer w)
  case Nil
  from Nil.prems(1,3) have e: "stdin w = [] \<or> (\<exists>cs. stdin w = NEWLINE # cs)"
    by (cases rest) auto
  have lt: "position < bufsize"
    using capacity_step(1) [OF Nil.prems(4,5)] .
  with Nil.prems(4,6) have i: "nat position < length buffer"
    by simp
  with Nil.prems(4) have aw: "awrite buffer position NUL = Some (buffer[nat position := Some NUL])"
    by (simp add: awrite_def)
  from lt Nil.prems(4,5,6) have len: "int (length buffer) = 1024 * (position div 1024 + 1)"
    by simp
  show ?case
    unfolding read_loop_end [OF e] aw
    using Nil.prems(1) i len by (simp add: take_Suc_update)
next
  case (Cons c cs)
  let ?w1 = "w\<lparr>stdin := cs @ rest\<rparr>"
  let ?b1 = "buffer[nat position := Some c]"
  from Cons.prems(1,2) have st: "stdin w = c # (cs @ rest)" and c: "c \<noteq> NEWLINE"
    by auto
  have lt: "position < bufsize"
    using capacity_step(1) [OF Cons.prems(4,5)] .
  with Cons.prems(4,6) have i: "nat position < length buffer"
    by simp
  with Cons.prems(4) have aw: "awrite buffer position c = Some ?b1"
    by (simp add: awrite_def)
  from Cons.prems(7) have bound: "position + 1025 \<le> INT_MAX"
    by simp
  have len1: "length ?b1 = nat bufsize"
    using Cons.prems(6) by simp
  note adv = read_advance_cases [OF Cons.prems(4) lt len1 bound, of os ?w1]
  have p1: "0 \<le> position + 1" "nat (position + 1) = Suc (nat position)"
    using Cons.prems(4) by simp_all
  have b1: "position + 1 + int (length cs) + 1024 \<le> INT_MAX"
    using Cons.prems(7) by simp
  have n1: "NEWLINE \<notin> set cs"
    using Cons.prems(2) by simp
  have sum: "position + int (length (c # cs)) = position + 1 + int (length cs)"
    by simp
  show ?case
  proof (cases "position + 1 < bufsize")
    case True
    then have step: "read_loop os bufsize position buffer w
        = read_loop os bufsize (position + 1) ?b1 ?w1"
      by (simp add: read_loop_char [OF st c] aw adv)
    from True have cap: "bufsize = 1024 * ((position + 1) div 1024 + 1)"
      by (rule capacity_step(2) [OF Cons.prems(4,5)])
    have pre: "take (Suc (nat position)) ?b1 = take (nat position) buffer @ [Some c]"
      using i by (rule take_Suc_update)
    have "stdin ?w1 = cs @ rest"
      by simp
    from Cons.IH [OF this n1 Cons.prems(3) p1(1) cap len1 b1]
    show ?thesis
      unfolding step sum p1(2) pre
      by (cases "read_loop os bufsize (position + 1) ?b1 ?w1") auto
  next
    case False
    show ?thesis
    proof (cases "os_alloc os (clock ?w1)")
      case alloc: True
      let ?b2 = "?b1 @ replicate 1024 None"
      from False alloc have step: "read_loop os bufsize position buffer w
          = read_loop os (bufsize + 1024) (position + 1) ?b2 (tick ?w1)"
        by (simp add: read_loop_char [OF st c] aw adv)
      from False have cap: "bufsize + 1024 = 1024 * ((position + 1) div 1024 + 1)"
        by (rule capacity_step(3) [OF Cons.prems(4,5)])
      have pre: "take (Suc (nat position)) ?b2 = take (nat position) buffer @ [Some c]"
        using i by (rule take_Suc_update_append)
      have len2: "length ?b2 = nat (bufsize + 1024)"
        using len1 lt Cons.prems(4) by simp
      have "stdin (tick ?w1) = cs @ rest"
        by (simp add: tick_def)
      from Cons.IH [OF this n1 Cons.prems(3) p1(1) cap len2 b1]
      show ?thesis
        unfolding step sum p1(2) pre
        by (cases "read_loop os (bufsize + 1024) (position + 1) ?b2 (tick ?w1)")
          (auto simp: tick_def)
    next
      case noalloc: False
      with False have "read_loop os bufsize position buffer w
          = Inl (Exit_Failure, fprintf_stderr alloc_error (tick ?w1))"
        by (simp add: read_loop_char [OF st c] aw adv)
      with noalloc show ?thesis
        by auto
    qed
  qed
qed

lemma qwertysh_read_line_result:
  assumes "stdin w = line @ rest" and "NEWLINE \<notin> set line" and "rest = [] \<or> hd rest = NEWLINE"
    and "int (length line) + 1024 \<le> INT_MAX"
  shows "case qwertysh_read_line os w of
           Inl (f, w') \<Rightarrow> f = Exit_Failure \<and> (\<exists>t. \<not> os_alloc os t)
         | Inr (buffer, w') \<Rightarrow>
             take (Suc (length line)) buffer = map Some line @ [Some NUL]
             \<and> int (length buffer) = 1024 * (int (length line) div 1024 + 1)
             \<and> w' = w\<lparr>stdin := drop 1 rest, clock := clock w'\<rparr>"
proof (cases "os_alloc os (clock w)")
  case False
  then show ?thesis
    by (auto simp: qwertysh_read_line_def malloc_def)
next
  case True
  let ?b = "replicate (nat qwertysh_RL_BUFSIZE) None :: char array"
  from True have r: "qwertysh_read_line os w = read_loop os 1024 0 ?b (tick w)"
    by (simp add: qwertysh_read_line_def malloc_def qwertysh_RL_BUFSIZE_def)
  have s: "stdin (tick w) = line @ rest"
    using assms(1) by (simp add: tick_def)
  have "case read_loop os 1024 0 ?b (tick w) of
           Inl (f, w') \<Rightarrow> f = Exit_Failure \<and> (\<exists>t. \<not> os_alloc os t)
         | Inr (buffer', w') \<Rightarrow>
             take (Suc (nat 0 + length line)) buffer'
               = take (nat 0) ?b @ map Some line @ [Some NUL]
             \<and> int (length buffer') = 1024 * ((0 + int (length line)) div 1024 + 1)
             \<and> w' = (tick w)\<lparr>stdin := drop 1 rest, clock := clock w'\<rparr>"
    using assms(4)
    by (intro read_loop_result [OF s assms(2,3)]) (simp_all add: qwertysh_RL_BUFSIZE_def)
  then show ?thesis
    unfolding r
    by (cases "read_loop os 1024 0 ?b (tick w)") (auto simp: tick_def)
qed

lemma c_str_terminated:
  "c_str (map Some s @ Some NUL # cells) = Some (takeWhile (\<lambda>c. c \<noteq> NUL) s)"
  by (induction s) auto

lemma c_str_take:
  assumes "take (Suc (length s)) buffer = map Some s @ [Some NUL]"
  shows "c_str buffer = Some (takeWhile (\<lambda>c. c \<noteq> NUL) s)"
proof -
  have "buffer = take (Suc (length s)) buffer @ drop (Suc (length s)) buffer"
    by simp
  with assms have "buffer = map Some s @ Some NUL # drop (Suc (length s)) buffer"
    by simp
  then show ?thesis
    using c_str_terminated by metis
qed

text \<open>
  Claim C7. The buffer of \<^verbatim>\<open>qwertysh_read_line\<close> has 1024 cells at first and 1024 more
  each time \<open>position\<close> reaches its size. A line is returned whole, with its terminating
  NUL, in a buffer of 1024 cells for every 1024 characters begun; a line of 1024 or of 1025
  characters comes back in one of 2048 cells. No write falls outside the block: the result
  is a returned buffer, not undefined behaviour.
\<close>

theorem qwertysh_read_line_grows:
  assumes "\<forall>t. os_alloc os t"
    and "stdin w = line @ rest" and "NEWLINE \<notin> set line" and "rest = [] \<or> hd rest = NEWLINE"
    and "int (length line) + 1024 \<le> INT_MAX"
  shows "\<exists>buffer w'. qwertysh_read_line os w = Inr (buffer, w')
    \<and> take (Suc (length line)) buffer = map Some line @ [Some NUL]
    \<and> length buffer = 1024 * (length line div 1024 + 1)
    \<and> (length line = 1024 \<or> length line = 1025 \<longrightarrow> length buffer = 2048)
    \<and> c_str buffer = Some (takeWhile (\<lambda>c. c \<noteq> NUL) line)
    \<and> stdin w' = drop 1 rest"
proof -
  note r = qwertysh_read_line_result [OF assms(2,3,4,5), of os]
  from r assms(1) obtain buffer w' where ok: "qwertysh_read_line os w = Inr (buffer, w')"
    by (cases "qwertysh_read_line os w") auto
  with r have t: "take (Suc (length line)) buffer = map Some line @ [Some NUL]"
    and l: "int (length buffer) = 1024 * (int (length line) div 1024 + 1)"
    and w: "w' = w\<lparr>stdin := drop 1 rest, clock := clock w'\<rparr>"
    by simp_all
  from l have "int (length buffer) = int (1024 * (length line div 1024 + 1))"
    by (simp add: zdiv_int)
  then have len: "length buffer = 1024 * (length line div 1024 + 1)"
    by (simp only: of_nat_eq_iff)
  then have two: "length line = 1024 \<or> length line = 1025 \<longrightarrow> length buffer = 2048"
    by auto
  from w have "stdin w' = drop 1 rest"
    by (metis world.select_convs(1) world.surjective world.update_convs(1) world.update_convs(6))
  with ok t len two c_str_take [OF t] show ?thesis
    by blast
qed

theorem qwertysh_read_line_grows_witness:
  "(\<forall>t. os_alloc sample_os t)
   \<and> stdin (sample_world (replicate 1024 (CHR ''a'') @ [NEWLINE])) = replicate 1024 (CHR ''a'') @ [NEWLINE]
   \<and> NEWLINE \<notin> set (replicate 1024 (CHR ''a''))
   \<and> int (length (replicate 1024 (CHR ''a''))) + 1024 \<le> INT_MAX
   \<and> (\<exists>buffer w'. qwertysh_read_line sample_os (sample_world (replicate 1024 (CHR ''a'') @ [NEWLINE]))
          = Inr (buffer, w')
        \<and> take 1025 buffer = map Some (replicate 1024 (CHR ''a'')) @ [Some NUL]
        \<and> length buffer = 2048
        \<and> c_str buffer = Some (replicate 1024 (CHR ''a''))
        \<and> stdin w' = [])
   \<and> (\<exists>buffer w'. qwertysh_read_line sample_os (sample_world (replicate 1025 (CHR ''a'')))
          = Inr (buffer, w')
        \<and> take 1026 buffer = map Some (replicate 1025 (CHR ''a'')) @ [Some NUL]
        \<and> length buffer = 2048)"
proof -
  let ?l = "replicate 1024 (CHR ''a'')"
  let ?m = "replicate 1025 (CHR ''a'')"
  have a: "\<forall>t. os_alloc sample_os t"
    by (simp add: sample_os_def)
  have s1: "stdin (sample_world (?l @ [NEWLINE])) = ?l @ [NEWLINE]"
    and s2: "stdin (sample_world ?m) = ?m @ []"
    by (simp_all add: sample_world_def)
  have n1: "NEWLINE \<notin> set ?l" and n2: "NEWLINE \<notin> set ?m"
    by (simp_all add: NEWLINE_def)
  have r1: "[NEWLINE] = [] \<or> hd [NEWLINE] = NEWLINE" and r2: "[] = [] \<or> hd [] = NEWLINE"
    by simp_all
  have l1: "int (length ?l) + 1024 \<le> INT_MAX" and l2: "int (length ?m) + 1024 \<le> INT_MAX"
    by (simp_all add: INT_MAX_def)
  have tw: "takeWhile (\<lambda>c. c \<noteq> NUL) ?l = ?l"
    by (simp add: NUL_def)
  from qwertysh_read_line_grows [OF a s1 n1 r1 l1]
  have 1: "\<exists>buffer w'. qwertysh_read_line sample_os (sample_world (?l @ [NEWLINE])) = Inr (buffer, w')
        \<and> take 1025 buffer = map Some ?l @ [Some NUL]
        \<and> length buffer = 2048
        \<and> c_str buffer = Some ?l
        \<and> stdin w' = []"
    unfolding tw by simp
  from qwertysh_read_line_grows [OF a s2 n2 r2 l2]
  have 2: "\<exists>buffer w'. qwertysh_read_line sample_os (sample_world ?m) = Inr (buffer, w')
        \<and> take 1026 buffer = map Some ?m @ [Some NUL]
        \<and> length buffer = 2048"
    by auto
  from a s1 n1 l1 1 2 show ?thesis
    by (intro conjI)
qed

section \<open>The main loop\<close>

lemma input_line_split:
  "stdin w = input_line w @ dropWhile (\<lambda>c. c \<noteq> NEWLINE) (stdin w)"
  "NEWLINE \<notin> set (input_line w)"
  "dropWhile (\<lambda>c. c \<noteq> NEWLINE) (stdin w) = []
     \<or> hd (dropWhile (\<lambda>c. c \<noteq> NEWLINE) (stdin w)) = NEWLINE"
proof -
  show "stdin w = input_line w @ dropWhile (\<lambda>c. c \<noteq> NEWLINE) (stdin w)"
    by (simp add: input_line_def)
  show "NEWLINE \<notin> set (input_line w)"
    by (auto simp: input_line_def dest: set_takeWhileD)
  show "dropWhile (\<lambda>c. c \<noteq> NEWLINE) (stdin w) = []
     \<or> hd (dropWhile (\<lambda>c. c \<noteq> NEWLINE) (stdin w)) = NEWLINE"
    using hd_dropWhile [of "\<lambda>c. c \<noteq> NEWLINE" "stdin w"] by blast
qed

lemma loop_body_result:
  assumes alloc: "\<forall>t. os_alloc os t" and bound: "int (length (input_line w)) + 1024 \<le> INT_MAX"
  shows "\<exists>args w1. loop_body os w = qwertysh_execute os args w1
    \<and> take (Suc (length (tokens_of (input_string w)))) args
        = map (\<lambda>t. Some (Some t)) (tokens_of (input_string w)) @ [Some None]
    \<and> w1 = w\<lparr>stdin := drop 1 (dropWhile (\<lambda>c. c \<noteq> NEWLINE) (stdin w)),
             stdout := stdout w @ PROMPT, clock := clock w1\<rparr>"
proof -
  let ?w0 = "printf PROMPT w"
  let ?rest = "dropWhile (\<lambda>c. c \<noteq> NEWLINE) (stdin w)"
  have s: "stdin ?w0 = input_line w @ ?rest"
    using input_line_split(1) [of w] by (simp add: printf_def)
  note r = qwertysh_read_line_result [OF s input_line_split(2,3) bound, of os]
  from r alloc obtain buffer w1 where rd: "qwertysh_read_line os ?w0 = Inr (buffer, w1)"
    by (cases "qwertysh_read_line os ?w0") auto
  with r have t: "take (Suc (length (input_line w))) buffer = map Some (input_line w) @ [Some NUL]"
    and w1: "w1 = ?w0\<lparr>stdin := drop 1 ?rest, clock := clock w1\<rparr>"
    by simp_all
  from c_str_take [OF t] have cs: "c_str buffer = Some (input_string w)"
    by (simp add: input_string_def)
  have "length (input_string w) \<le> length (input_line w)"
    unfolding input_string_def by (rule length_takeWhile_le)
  with bound have "int (length (input_string w)) + 64 \<le> INT_MAX"
    by simp
  from qwertysh_split_line_total [OF alloc this, of w1]
  obtain args w2 where sp: "qwertysh_split_line os (input_string w) w1 = Inr (args, w2)"
    by blast
  note q = qwertysh_split_line_Inr [OF sp]
  from rd cs sp have "loop_body os w = qwertysh_execute os args w2"
    by (simp add: loop_body_def)
  moreover from q w1
  have "w2 = w\<lparr>stdin := drop 1 ?rest, stdout := stdout w @ PROMPT, clock := clock w2\<rparr>"
    by (metis (no_types, lifting) printf_def world.surjective world.update_convs(1)
        world.update_convs(2) world.update_convs(6))
  ultimately show ?thesis
    using q by blast
qed

lemma aread_first:
  assumes "take (Suc (length toks)) args = map (\<lambda>t. Some (Some t)) toks @ [Some None]"
  shows "aread args 0 = Some (case toks of [] \<Rightarrow> None | t # ts \<Rightarrow> Some t)"
proof -
  from assms have ne: "args \<noteq> []"
    by auto
  have "args ! 0 = take (Suc (length toks)) args ! 0"
    by simp
  also have "\<dots> = (case toks of [] \<Rightarrow> Some None | t # ts \<Rightarrow> Some (Some t))"
    unfolding assms by (cases toks) simp_all
  finally show ?thesis
    using ne by (cases toks) (simp_all add: aread_def)
qed

lemma qwertysh_execute_stop:
  "qwertysh_execute os args w = Inr (0, w') \<longleftrightarrow> aread args 0 = Some (Some ''exit'') \<and> w' = w"
proof (cases "aread args 0")
  case None
  then show ?thesis
    by (simp add: qwertysh_execute_def)
next
  case (Some a)
  note first = Some
  show ?thesis
  proof (cases a)
    case None
    with first show ?thesis
      by (simp add: qwertysh_execute_def)
  next
    case (Some name)
    with first have a: "aread args 0 = Some (Some name)"
      by simp
    have no_cd: "return_value (qwertysh_cd os args w) \<noteq> Inr (0, w')"
      by (auto simp: qwertysh_cd_def return_value_def chdir_def
          split: option.splits sum.splits)
    have no_help: "return_value (qwertysh_help os args w) \<noteq> Inr (0, w')"
      by (simp add: qwertysh_help_def return_value_def Let_def)
    have no_cls: "return_value (qwertysh_cls os args w) \<noteq> Inr (0, w')"
      by (simp add: qwertysh_cls_def return_value_def)
    have no_launch: "qwertysh_launch os args w \<noteq> Inr (0, w')"
      using qwertysh_launch_value [of os args w 0 w'] by auto
    have by_exit: "return_value (qwertysh_exit os args w) = Inr (0, w') \<longleftrightarrow> w' = w"
      by (auto simp: qwertysh_exit_def return_value_def)
    show ?thesis
      unfolding qwertysh_execute_unroll [OF a] using a no_cd no_help no_cls no_launch by_exit
      by simp
  qed
qed

lemma qwertysh_execute_status:
  assumes "qwertysh_execute os args w = Inr (status, w')"
  shows "status = 0 \<or> status = 1"
proof (cases "aread args 0")
  case None
  with assms show ?thesis
    by (simp add: qwertysh_execute_def)
next
  case (Some a)
  note first = Some
  show ?thesis
  proof (cases a)
    case None
    with first assms show ?thesis
      by (simp add: qwertysh_execute_def)
  next
    case (Some name)
    with first have a: "aread args 0 = Some (Some name)"
      by simp
    from assms show ?thesis
      unfolding qwertysh_execute_unroll [OF a]
      by (auto simp: qwertysh_cd_def qwertysh_help_def qwertysh_exit_def qwertysh_cls_def
          return_value_def chdir_def Let_def
          dest: qwertysh_launch_value split: if_splits option.splits sum.splits)
  qed
qed

lemma loop_body_eof:
  assumes "stdin w = []" and "os_alloc os (clock w)" and "os_alloc os (Suc (clock w))"
  shows "qwertysh_read_line os w = Inr ((replicate 1024 None)[0 := Some NUL], tick w)"
    and "c_str ((replicate 1024 None)[0 := Some NUL]) = Some []"
    and "loop_body os w = Inr (1, w\<lparr>stdout := stdout w @ PROMPT, clock := clock w + 2\<rparr>)"
proof -
  have rd: "qwertysh_read_line os v = Inr ((replicate 1024 None)[0 := Some NUL], tick v)"
    if "stdin v = []" and "os_alloc os (clock v)" for v
  proof -
    from that(1) have "stdin (tick v) = [] \<or> (\<exists>cs. stdin (tick v) = NEWLINE # cs)"
      by (simp add: tick_def)
    from read_loop_end [OF this] that show ?thesis
      by (simp add: qwertysh_read_line_def malloc_def qwertysh_RL_BUFSIZE_def awrite_def
          tick_def)
  qed
  from assms(1,2) show "qwertysh_read_line os w = Inr ((replicate 1024 None)[0 := Some NUL], tick w)"
    by (rule rd)
  have "replicate 1024 (None :: char option) = None # replicate 1023 None"
    by (simp add: numeral_eq_Suc)
  then show cs: "c_str ((replicate 1024 None)[0 := Some NUL]) = Some []"
    by simp
  let ?w0 = "printf PROMPT w"
  from assms have r: "qwertysh_read_line os ?w0 = Inr ((replicate 1024 None)[0 := Some NUL], tick ?w0)"
    by (intro rd) (simp_all add: printf_def)
  have s: "strtok [] qwertysh_TOK_DELIM = (None, [])"
    by (simp add: strtok_def)
  from assms(3)
  have sp: "qwertysh_split_line os [] (tick ?w0) = Inr ((replicate 64 None)[0 := Some None], tick (tick ?w0))"
    by (simp add: qwertysh_split_line_def malloc_def s split_loop.simps awrite_def
        qwertysh_TOK_BUFSIZE_def tick_def printf_def)
  have "aread ((replicate 64 None)[0 := Some None] :: string option array) 0 = Some None"
    by (simp add: aread_def)
  then have "qwertysh_execute os ((replicate 64 None)[0 := Some None]) (tick (tick ?w0))
      = Inr (1, tick (tick ?w0))"
    by (rule qwertysh_execute_empty)
  with r cs sp show "loop_body os w = Inr (1, w\<lparr>stdout := stdout w @ PROMPT, clock := clock w + 2\<rparr>)"
    by (simp add: loop_body_def tick_def printf_def)
qed

lemma qwertysh_loop_eof_never:
  "qwertysh_loop os w = Some r \<Longrightarrow> stdin w = [] \<Longrightarrow> \<forall>t. os_alloc os t \<Longrightarrow> False"
proof (induction rule: qwertysh_loop.raw_induct [rotated, consumes 1, case_names step])
  case (step loop os w r)
  let ?w' = "w\<lparr>stdout := stdout w @ PROMPT, clock := clock w + 2\<rparr>"
  from step.prems have "loop_body os w = Inr (1, ?w')"
    by (intro loop_body_eof(3)) simp_all
  with step.hyps have "loop os ?w' = Some r"
    by simp
  from step.IH [OF this] step.prems show False
    by simp
qed

lemma qwertysh_loop_eof:
  assumes "stdin w = []" and "\<forall>t. os_alloc os t"
  shows "qwertysh_loop os w = None"
  using qwertysh_loop_eof_never [OF _ assms] by (cases "qwertysh_loop os w") auto

text \<open>
  What holds of the status: \<^verbatim>\<open>qwertysh_exit\<close> returns 0 whatever its arguments are; when
  no allocation fails, an iteration of the main loop leaves \<open>status\<close> at 0 exactly when the
  first token of the line it read is \<open>exit\<close>, and the loop then returns, having printed
  one prompt and no other; an iteration that has a status on any other line has status 1,
  and the loop goes on with the next iteration.
\<close>

lemma loop_status_exit:
  assumes alloc: "\<forall>t. os_alloc os t" and bound: "int (length (input_line w)) + 1024 \<le> INT_MAX"
  shows "qwertysh_exit os args w0 = Inr (Some 0, w0)
    \<and> ((\<exists>w'. loop_body os w = Inr (0, w'))
          \<longleftrightarrow> take 1 (tokens_of (input_string w)) = [''exit''])
    \<and> (take 1 (tokens_of (input_string w)) = [''exit''] \<longrightarrow>
          (\<exists>w'. qwertysh_loop os w = Some (Inr ((), w')) \<and> stdout w' = stdout w @ PROMPT))
    \<and> (\<forall>status w'. loop_body os w = Inr (status, w')
            \<and> take 1 (tokens_of (input_string w)) \<noteq> [''exit''] \<longrightarrow>
          status = 1 \<and> qwertysh_loop os w = qwertysh_loop os w')"
proof -
  let ?toks = "tokens_of (input_string w)"
  from loop_body_result [OF alloc bound] obtain vec w1
    where lb: "loop_body os w = qwertysh_execute os vec w1"
      and t: "take (Suc (length ?toks)) vec = map (\<lambda>t. Some (Some t)) ?toks @ [Some None]"
      and w1: "w1 = w\<lparr>stdin := drop 1 (dropWhile (\<lambda>c. c \<noteq> NEWLINE) (stdin w)),
             stdout := stdout w @ PROMPT, clock := clock w1\<rparr>"
    by blast
  have first: "aread vec 0 = Some (Some ''exit'') \<longleftrightarrow> take 1 ?toks = [''exit'']"
    unfolding aread_first [OF t] by (cases ?toks) simp_all
  have stop: "loop_body os w = Inr (0, w') \<longleftrightarrow> take 1 ?toks = [''exit''] \<and> w' = w1" for w'
    unfolding lb qwertysh_execute_stop first ..
  have 1: "qwertysh_exit os args w0 = Inr (Some 0, w0)"
    by (simp add: qwertysh_exit_def)
  have 2: "(\<exists>w'. loop_body os w = Inr (0, w')) \<longleftrightarrow> take 1 ?toks = [''exit'']"
    using stop by blast
  have 3: "\<exists>w'. qwertysh_loop os w = Some (Inr ((), w')) \<and> stdout w' = stdout w @ PROMPT"
    if "take 1 ?toks = [''exit'']"
  proof -
    from that stop have "loop_body os w = Inr (0, w1)"
      by simp
    then have "qwertysh_loop os w = Some (Inr ((), w1))"
      by (subst qwertysh_loop.simps) simp
    moreover from w1 have "stdout w1 = stdout w @ PROMPT"
      by (metis world.select_convs(2) world.surjective world.update_convs(2) world.update_convs(6))
    ultimately show ?thesis
      by blast
  qed
  have 4: "status = 1 \<and> qwertysh_loop os w = qwertysh_loop os w'"
    if "loop_body os w = Inr (status, w') \<and> take 1 ?toks \<noteq> [''exit'']" for status w'
  proof -
    from that have b: "loop_body os w = Inr (status, w')" and n: "take 1 ?toks \<noteq> [''exit'']"
      by simp_all
    from b stop n have "status \<noteq> 0"
      by auto
    moreover from b have "status = 0 \<or> status = 1"
      unfolding lb by (rule qwertysh_execute_status)
    ultimately have s: "status = 1"
      by simp
    with b have "qwertysh_loop os w = qwertysh_loop os w'"
      by (subst qwertysh_loop.simps) simp
    with s show ?thesis ..
  qed
  show ?thesis
  proof (intro conjI allI impI)
    show "qwertysh_exit os args w0 = Inr (Some 0, w0)"
      by (rule 1)
    show "(\<exists>w'. loop_body os w = Inr (0, w')) \<longleftrightarrow> take 1 ?toks = [''exit'']"
      by (rule 2)
    show "\<exists>w'. qwertysh_loop os w = Some (Inr ((), w')) \<and> stdout w' = stdout w @ PROMPT"
      if "take 1 ?toks = [''exit'']"
      using that by (rule 3)
    show "status = 1" "qwertysh_loop os w = qwertysh_loop os w'"
      if "loop_body os w = Inr (status, w') \<and> take 1 ?toks \<noteq> [''exit'']" for status w'
      using 4 [OF that] by simp_all
  qed
qed

text \<open>
  Claim C2. \<^verbatim>\<open>qwertysh_exit\<close> returns 0 and an iteration on a line that starts with \<open>exit\<close>
  stops the loop, but \<open>exit\<close> is not the only line on which the loop is not certain to go
  on: when the first token is \<open>cls\<close> the built-in hands back no value, so the \<open>status\<close> that
  \<^verbatim>\<open>while (status)\<close> tests is undefined. The iteration prints the prompt and the
  clear-screen sequence and has no status, although the first token is not \<open>exit\<close>.
\<close>

theorem qwertysh_cls_line_no_status:
  assumes alloc: "\<forall>t. os_alloc os t" and bound: "int (length (input_line w)) + 1024 \<le> INT_MAX"
    and cls: "take 1 (tokens_of (input_string w)) = [''cls'']"
  shows "take 1 (tokens_of (input_string w)) \<noteq> [''exit'']
    \<and> (\<exists>w'. loop_body os w = Inl (Undefined_Behaviour, w')
          \<and> stdout w' = stdout w @ PROMPT @ CLEAR_SCREEN
          \<and> qwertysh_loop os w = Some (Inl (Undefined_Behaviour, w')))"
proof -
  let ?toks = "tokens_of (input_string w)"
  from loop_body_result [OF alloc bound] obtain vec w1
    where lb: "loop_body os w = qwertysh_execute os vec w1"
      and t: "take (Suc (length ?toks)) vec = map (\<lambda>t. Some (Some t)) ?toks @ [Some None]"
      and w1: "w1 = w\<lparr>stdin := drop 1 (dropWhile (\<lambda>c. c \<noteq> NEWLINE) (stdin w)),
             stdout := stdout w @ PROMPT, clock := clock w1\<rparr>"
    by blast
  from cls have "aread vec 0 = Some (Some ''cls'')"
    unfolding aread_first [OF t] by (cases ?toks) simp_all
  then have "qwertysh_execute os vec w1 = Inl (Undefined_Behaviour, printf CLEAR_SCREEN w1)"
    by (simp add: qwertysh_execute_unroll [of vec "''cls''"] qwertysh_cls_def return_value_def)
  with lb have b: "loop_body os w = Inl (Undefined_Behaviour, printf CLEAR_SCREEN w1)"
    by simp
  then have l: "qwertysh_loop os w = Some (Inl (Undefined_Behaviour, printf CLEAR_SCREEN w1))"
    by (subst qwertysh_loop.simps) simp
  from w1 have "stdout w1 = stdout w @ PROMPT"
    by (metis world.select_convs(2) world.surjective world.update_convs(2) world.update_convs(6))
  then have "stdout (printf CLEAR_SCREEN w1) = stdout w @ PROMPT @ CLEAR_SCREEN"
    by (simp add: printf_def)
  with b l have "\<exists>w'. loop_body os w = Inl (Undefined_Behaviour, w')
          \<and> stdout w' = stdout w @ PROMPT @ CLEAR_SCREEN
          \<and> qwertysh_loop os w = Some (Inl (Undefined_Behaviour, w'))"
    by blast
  moreover from cls have "take 1 ?toks \<noteq> [''exit'']"
    by simp
  ultimately show ?thesis
    by simp
qed

theorem qwertysh_cls_line_no_status_witness:
  "(\<forall>t. os_alloc sample_os t)
   \<and> int (length (input_line (sample_world (''cls'' @ [NEWLINE] @ ''exit'')))) + 1024 \<le> INT_MAX
   \<and> take 1 (tokens_of (input_string (sample_world (''cls'' @ [NEWLINE] @ ''exit'')))) = [''cls'']
   \<and> (\<exists>w'. loop_body sample_os (sample_world (''cls'' @ [NEWLINE] @ ''exit''))
            = Inl (Undefined_Behaviour, w')
          \<and> stdout w' = PROMPT @ CLEAR_SCREEN
          \<and> qwertysh_loop sample_os (sample_world (''cls'' @ [NEWLINE] @ ''exit''))
            = Some (Inl (Undefined_Behaviour, w')))"
proof -
  let ?u = "sample_world (''cls'' @ [NEWLINE] @ ''exit'')"
  have a: "\<forall>t. os_alloc sample_os t"
    by (simp add: sample_os_def)
  have lu: "input_line ?u = ''cls''"
    by (simp add: input_line_def sample_world_def NEWLINE_def)
  have bu: "int (length (input_line ?u)) + 1024 \<le> INT_MAX"
    unfolding lu by (simp add: INT_MAX_def)
  have tu: "take 1 (tokens_of (input_string ?u)) = [''cls'']"
    unfolding input_string_def lu
    by (simp add: NUL_def tokens_of_def strtok_def qwertysh_TOK_DELIM_def)
  have so: "stdout ?u = []"
    by (simp add: sample_world_def)
  from qwertysh_cls_line_no_status [OF a bu tu, THEN conjunct2]
  have 1: "\<exists>w'. loop_body sample_os ?u = Inl (Undefined_Behaviour, w')
          \<and> stdout w' = PROMPT @ CLEAR_SCREEN
          \<and> qwertysh_loop sample_os ?u = Some (Inl (Undefined_Behaviour, w'))"
    unfolding so by simp
  from a bu tu 1 show ?thesis
    by (intro conjI)
qed

text \<open>
  Claim C8, as the code has it. At the end of the input \<^verbatim>\<open>qwertysh_read_line\<close> returns
  the empty string in a fresh buffer. The iteration built on it then has \<open>status\<close> 1: the
  loop does not stop. With the input still at its end, every later iteration is the same,
  and \<^verbatim>\<open>qwertysh_loop\<close> never returns.
\<close>

theorem qwertysh_eof_continues:
  assumes "stdin w = []" and "\<forall>t. os_alloc os t"
  shows "qwertysh_read_line os w = Inr ((replicate 1024 None)[0 := Some NUL], tick w)
    \<and> c_str ((replicate 1024 None)[0 := Some NUL]) = Some []
    \<and> tokens_of [] = []
    \<and> loop_body os w = Inr (1, w\<lparr>stdout := stdout w @ PROMPT, clock := clock w + 2\<rparr>)
    \<and> qwertysh_loop os w = None"
proof -
  from assms have a: "os_alloc os (clock w)" "os_alloc os (Suc (clock w))"
    by simp_all
  have "tokens_of [] = []"
    by (simp add: tokens_of_def strtok_def)
  with loop_body_eof [OF assms(1) a] qwertysh_loop_eof [OF assms] show ?thesis
    by simp
qed

theorem qwertysh_eof_continues_witness:
  "stdin (sample_world []) = [] \<and> (\<forall>t. os_alloc sample_os t)
   \<and> loop_body sample_os (sample_world [])
       = Inr (1, (sample_world [])\<lparr>stdout := PROMPT, clock := 2\<rparr>)
   \<and> qwertysh_loop sample_os (sample_world []) = None"
proof -
  have e: "stdin (sample_world []) = []" and o: "stdout (sample_world []) = []"
    and c: "clock (sample_world []) = 0"
    by (simp_all add: sample_world_def)
  have a: "\<forall>t. os_alloc sample_os t"
    by (simp add: sample_os_def)
  from qwertysh_eof_continues [OF e a] e a show ?thesis
    unfolding o c by simp
qed

text \<open>The claim as the specification words it fails at the very input it names: a loop
  started at the end of the input, in an environment where every allocation succeeds, gets
  the empty string from the reader and does not terminate.\<close>

theorem qwertysh_eof_no_termination:
  "qwertysh_read_line sample_os (sample_world [])
     = Inr ((replicate 1024 None)[0 := Some NUL], tick (sample_world []))
   \<and> c_str ((replicate 1024 None)[0 := Some NUL]) = Some []
   \<and> qwertysh_loop sample_os (sample_world []) = None"
proof -
  have e: "stdin (sample_world []) = []"
    by (simp add: sample_world_def)
  have a: "\<forall>t. os_alloc sample_os t"
    by (simp add: sample_os_def)
  from a have a2: "os_alloc sample_os (clock (sample_world []))"
    "os_alloc sample_os (Suc (clock (sample_world [])))"
    by simp_all
  from loop_body_eof(1,2) [OF e a2] qwertysh_loop_eof [OF e a] show ?thesis
    by simp
qed

end
